theory Spec2Isabelle
  imports Complex_Main "HOL-Library.Sublist"
begin

section \<open>Values and exceptions\<close>

text \<open>
  The gateway is written in Python.  An exception that leaves a function is the \<open>Inl\<close>
  branch of its result; the classes below are the ones the modelled code can raise.
  \<open>StoreError\<close> stands for any exception raised by the object-store client, with its
  message.
\<close>

datatype exn =
    OverflowError
  | TypeError
  | KeyError
  | IOError
  | JSONDecodeError
  | StoreError string

text \<open>
  The values that reach \<open>human_readable_size\<close> and that live in the folder-size cache:
  Python integers (unbounded; a JSON boolean is the integer 1 or 0 in every operation
  used here), finite floats (given by their exact rational value) and everything else
  a JSON file may hold (strings, null, lists, objects), on which ordering comparisons
  and numeric formatting raise \<open>TypeError\<close>.
\<close>

datatype pyval = PyInt int | PyFloat rat | PyOther

section \<open>Integer to float conversion and two-decimal formatting\<close>

text \<open>
  \<open>bytes /= 1024.0\<close> on an integer and \<open>f"{bytes:.2f}"\<close> on an integer first convert the
  integer to a double: the nearest value with a 53-bit significand, ties to even, and
  \<open>OverflowError\<close> when the rounded value does not fit the exponent range.
\<close>

function bit_length :: "int \<Rightarrow> nat" where
  "bit_length m = (if m \<le> 0 then 0 else Suc (bit_length (m div 2)))"
  by pat_completeness auto
termination
  by (relation "measure nat") auto

declare bit_length.simps [simp del]

definition round_to_53 :: "int \<Rightarrow> int" where
  "round_to_53 m =
     (let bl = bit_length m in
      if bl \<le> 53 then m
      else let sh = bl - 53; q = m div 2 ^ sh; r = m mod 2 ^ sh; h = 2 ^ (sh - 1)
           in (if h < r \<or> (r = h \<and> odd q) then q + 1 else q) * 2 ^ sh)"

definition float_of_int :: "int \<Rightarrow> exn + rat" where
  "float_of_int n =
     (let r = round_to_53 \<bar>n\<bar> in
      if 2 ^ 1024 \<le> r then Inl OverflowError
      else Inr (if n < 0 then - of_int r else of_int r))"

text \<open>
  The format \<open>.2f\<close> prints the decimal with two fractional digits that is nearest to the
  exact value of the double, ties to even.
\<close>

definition round_half_even :: "rat \<Rightarrow> int" where
  "round_half_even x =
     (let f = \<lfloor>x\<rfloor>; d = x - of_int f in
      if d < 1 / 2 then f else if 1 / 2 < d then f + 1 else if even f then f else f + 1)"

definition digit_char :: "int \<Rightarrow> char" where
  "digit_char d = ''0123456789'' ! nat d"

function str_digits :: "int \<Rightarrow> string" where
  "str_digits n =
     (if n < 10 then [digit_char n] else str_digits (n div 10) @ [digit_char (n mod 10)])"
  by pat_completeness auto
termination
  by (relation "measure nat") auto

declare str_digits.simps [simp del]

definition format_2f_rat :: "rat \<Rightarrow> string" where
  "format_2f_rat x =
     (let s = round_half_even (\<bar>x\<bar> * 100) in
      (if x < 0 then ''-'' else '''') @ str_digits (s div 100) @ ''.'' @
      [digit_char (s mod 100 div 10), digit_char (s mod 10)])"

definition format_2f :: "pyval \<Rightarrow> exn + string" where
  "format_2f v =
     (case v of
        PyInt n \<Rightarrow> (case float_of_int n of Inl e \<Rightarrow> Inl e | Inr x \<Rightarrow> Inr (format_2f_rat x))
      | PyFloat x \<Rightarrow> Inr (format_2f_rat x)
      | PyOther \<Rightarrow> Inl TypeError)"

section \<open>\<open>human_readable_size\<close>\<close>

text \<open>
  \<^verbatim>\<open>
  def human_readable_size(bytes):
      units = ['B', 'KB', 'MB', 'GB', 'TB', 'PB', 'EB', 'ZB', 'YB']
      if bytes == 0:
          return "0 B"
      i = 0
      while bytes >= 1024 and i < len(units) - 1:
          bytes /= 1024.0
          i += 1
      return f"{bytes:.2f} {units[i]}"
  \<close>
  The three operations the function applies to \<open>bytes\<close> are modelled on \<open>pyval\<close>;
  division of a double by 1024 only lowers its exponent, so it is exact.
\<close>

definition units :: "string list" where
  "units = [''B'', ''KB'', ''MB'', ''GB'', ''TB'', ''PB'', ''EB'', ''ZB'', ''YB'']"

definition py_eq_zero :: "pyval \<Rightarrow> bool" where
  "py_eq_zero v = (case v of PyInt n \<Rightarrow> n = 0 | PyFloat x \<Rightarrow> x = 0 | PyOther \<Rightarrow> False)"

definition py_ge_1024 :: "pyval \<Rightarrow> exn + bool" where
  "py_ge_1024 v =
     (case v of
        PyInt n \<Rightarrow> Inr (1024 \<le> n)
      | PyFloat x \<Rightarrow> Inr (1024 \<le> x)
      | PyOther \<Rightarrow> Inl TypeError)"

definition py_div_1024 :: "pyval \<Rightarrow> exn + pyval" where
  "py_div_1024 v =
     (case v of
        PyInt n \<Rightarrow> (case float_of_int n of Inl e \<Rightarrow> Inl e | Inr x \<Rightarrow> Inr (PyFloat (x / 1024)))
      | PyFloat x \<Rightarrow> Inr (PyFloat (x / 1024))
      | PyOther \<Rightarrow> Inl TypeError)"

function hrs_loop :: "pyval \<Rightarrow> nat \<Rightarrow> exn + pyval \<times> nat" where
  "hrs_loop b i =
     (case py_ge_1024 b of
        Inl e \<Rightarrow> Inl e
      | Inr ge \<Rightarrow>
          if ge \<and> i < length units - 1
          then (case py_div_1024 b of Inl e \<Rightarrow> Inl e | Inr b' \<Rightarrow> hrs_loop b' (i + 1))
          else Inr (b, i))"
  by pat_completeness auto
termination
  by (relation "measure (\<lambda>(b, i). length units - 1 - i)") auto

declare hrs_loop.simps [simp del]

definition human_readable_size :: "pyval \<Rightarrow> exn + string" where
  "human_readable_size bytes =
     (if py_eq_zero bytes then Inr ''0 B''
      else case hrs_loop bytes 0 of
             Inl e \<Rightarrow> Inl e
           | Inr (b, i) \<Rightarrow>
               (case format_2f b of Inl e \<Rightarrow> Inl e | Inr s \<Rightarrow> Inr (s @ '' '' @ units ! i)))"

section \<open>Strings\<close>

text \<open>
  \<open>str.replace(old, new)\<close> scans from the left and replaces every non-overlapping
  occurrence of \<open>old\<close>; for the empty \<open>old\<close> it inserts \<open>new\<close> before every character
  and at the end.  \<open>str.split(sep)\<close> cuts at every separator and always returns at
  least one piece.
\<close>

fun replace_nonempty :: "string \<Rightarrow> string \<Rightarrow> string \<Rightarrow> string" where
  "replace_nonempty [] old new = []"
| "replace_nonempty (c # cs) old new =
     (if prefix old (c # cs) then new @ replace_nonempty (drop (length old - 1) cs) old new
      else c # replace_nonempty cs old new)"

definition str_replace :: "string \<Rightarrow> string \<Rightarrow> string \<Rightarrow> string" where
  "str_replace s old new =
     (if old = [] then new @ concat (map (\<lambda>c. c # new) s) else replace_nonempty s old new)"

fun str_split :: "string \<Rightarrow> char \<Rightarrow> string list" where
  "str_split [] sep = [[]]"
| "str_split (c # cs) sep =
     (if c = sep then [] # str_split cs sep
      else (case str_split cs sep of [] \<Rightarrow> [[c]] | w # ws \<Rightarrow> (c # w) # ws))"

section \<open>The object store\<close>

record s3_object =
  Key :: string
  Size :: int
  LastModified :: string

record list_response =
  CommonPrefixes :: "string list"
  Contents :: "s3_object list"
  Prefix :: string
  Name :: string

type_synonym cache = "string \<rightharpoonup> pyval"

text \<open>
  An instance of class \<open>MinIO\<close>: \<open>s3\<close> is the store behind the client, given by the
  objects of the bucket in the order the store lists them (by key); \<open>cache\<close> is the
  folder-size dictionary, whose key \<open>time\<close> holds the timestamp of the snapshot.
\<close>

record minio =
  s3 :: "s3_object list"
  bucket :: string
  cache :: cache

text \<open>
  Modelled from the spec: the store client's \<open>list_objects_v2(Bucket, Prefix, Delimiter='/')\<close>
  is not part of the repository.  It is the delimiter listing of the spec: of the keys
  that start with the prefix, those with a \<open>/\<close> after the prefix are grouped under the
  common prefix that ends at that \<open>/\<close> (each common prefix listed once), the others are
  returned as objects with their sizes.  The answer is taken complete (not cut into pages).
\<close>

definition list_objects_v2 :: "minio \<Rightarrow> string \<Rightarrow> list_response" where
  "list_objects_v2 self pfx =
     (let matching = filter (\<lambda>obj. prefix pfx (Key obj)) (s3 self);
          rest = (\<lambda>obj. drop (length pfx) (Key obj));
          rolled = filter (\<lambda>obj. CHR ''/'' \<in> set (rest obj)) matching
      in \<lparr> CommonPrefixes =
             remdups (map (\<lambda>obj. pfx @ takeWhile (\<lambda>c. c \<noteq> CHR ''/'') (rest obj) @ ''/'') rolled),
           Contents = filter (\<lambda>obj. CHR ''/'' \<notin> set (rest obj)) matching,
           Prefix = pfx,
           Name = bucket self \<rparr>)"

section \<open>\<open>calculate_folder_size\<close>\<close>

text \<open>
  \<^verbatim>\<open>
  def calculate_folder_size(self, prefix, cache):
      objs = self.s3.meta.client.list_objects_v2(Bucket=self.bucket, Prefix=prefix, Delimiter='/')
      folders = objs.get('CommonPrefixes', None)
      files = objs.get('Contents', None)
      total_size = 0
      if folders:
          for folder in folders:
              folder_name = folder['Prefix'].replace(prefix, '')[:-1]
              total_size += self.calculate_folder_size("{}{}/".format(prefix, folder_name), cache)
      if files:
          for file in files:
              total_size += file['Size']
      cache[prefix] = total_size
      return total_size
  \<close>
  The parameters \<open>prefix\<close> and \<open>cache\<close> are written \<open>pfx\<close> and \<open>cmap\<close>.
  The dictionary \<open>cache\<close> is mutated in place by every call of the recursion; the model
  passes it through and returns it with the size.  The recursion ends because every
  recursive call extends the prefix, and a prefix with a common prefix below it is
  shorter than some key of the bucket.
\<close>

definition key_room :: "minio \<Rightarrow> nat" where
  "key_room self = sum_list (map (\<lambda>obj. length (Key obj)) (s3 self))"

lemma common_prefix_room:
  assumes "folder \<in> set (CommonPrefixes (list_objects_v2 self pfx))"
  shows "length pfx < key_room self"
proof -
  from assms obtain obj where o: "obj \<in> set (s3 self)" "prefix pfx (Key obj)"
    "CHR ''/'' \<in> set (drop (length pfx) (Key obj))"
    by (auto simp: list_objects_v2_def Let_def)
  from o(3) have "drop (length pfx) (Key obj) \<noteq> []" by auto
  then have "length pfx < length (Key obj)" by simp
  moreover have "length (Key obj) \<le> key_room self"
    unfolding key_room_def using o(1) by (simp add: member_le_sum_list)
  ultimately show ?thesis by simp
qed

function calculate_folder_size :: "minio \<Rightarrow> string \<Rightarrow> cache \<Rightarrow> int \<times> cache" where
  "calculate_folder_size self pfx cmap =
     (let objs = list_objects_v2 self pfx;
          folders = CommonPrefixes objs;
          files = Contents objs;
          (total_size, cmap) =
            fold (\<lambda>folder (total_size, cmap).
                    let folder_name = butlast (str_replace folder pfx '''');
                        (sub_size, cmap) =
                          calculate_folder_size self (pfx @ folder_name @ ''/'') cmap
                    in (total_size + sub_size, cmap))
                 folders (0, cmap);
          total_size = fold (\<lambda>file total_size. total_size + Size file) files total_size
      in (total_size, cmap(pfx \<mapsto> PyInt total_size)))"
  by pat_completeness auto
termination
  apply (relation "measure (\<lambda>(self, pfx, cmap). key_room self - length pfx)")
   apply simp
  apply (auto dest!: common_prefix_room)
  done

declare calculate_folder_size.simps [simp del]

section \<open>The persisted snapshot: \<open>refresh_cache\<close> and \<open>load_cache\<close>\<close>

text \<open>
  The file \<open><bucket>.json\<close> as \<open>load_cache\<close> finds it: absent; present but not openable;
  not JSON; JSON but not an object; or an object, read back as the dictionary that was
  dumped.
\<close>

datatype cache_file = Absent | Unreadable | Malformed | NotAnObject | Snapshot cache

text \<open>
  \<^verbatim>\<open>
  def refresh_cache(self, cache):
      objs = self.s3.meta.client.list_objects_v2(Bucket=self.bucket, Prefix='', Delimiter='/')
      folders = objs.get('CommonPrefixes', None)
      if folders:
          for folder in folders:
              folder_name = folder['Prefix']
              cache[folder_name] = self.calculate_folder_size(folder_name, cache)
      my_file = Path("{}.json".format(self.bucket))
      with my_file.open('w') as result_file:
          cache['time'] = time()
          json.dump(cache, result_file, indent=2, default=str)
      return cache
  \<close>
  \<open>writable\<close> says whether the file can be opened for writing, \<open>now\<close> is the reading of
  the clock.  The result is the dictionary and the file as written.
\<close>

definition refresh_cache ::
    "minio \<Rightarrow> bool \<Rightarrow> rat \<Rightarrow> cache \<Rightarrow> exn + cache \<times> cache_file" where
  "refresh_cache self writable now cmap =
     (let objs = list_objects_v2 self '''';
          folders = CommonPrefixes objs;
          cmap = fold (\<lambda>folder_name cmap.
                         let (folder_size, cmap) = calculate_folder_size self folder_name cmap
                         in cmap(folder_name \<mapsto> PyInt folder_size))
                      folders cmap
      in if writable
         then (let cmap = cmap(''time'' \<mapsto> PyFloat now) in Inr (cmap, Snapshot cmap))
         else Inl IOError)"

text \<open>
  \<^verbatim>\<open>
  def load_cache(self):
      cache = {}
      my_file = Path("{}.json".format(self.bucket))
      if my_file.exists():
          with my_file.open() as read_file:
              cache = json.load(read_file)
              # Refresh the cache if it is older than 15 minutes (900 seconds)
              if cache['time'] < time() + 900:
                  cache = self.refresh_cache(cache)
      else:
          # No cache exists, so create a fresh one
          cache = self.refresh_cache(cache)
      return cache
  \<close>
  \<open>now\<close> is the clock read by the comparison, \<open>now'\<close> the clock read by the refresh;
  the sum \<open>time() + 900\<close> is taken exact.
\<close>

definition py_lt :: "pyval \<Rightarrow> rat \<Rightarrow> exn + bool" where
  "py_lt v x =
     (case v of
        PyInt n \<Rightarrow> Inr (of_int n < x)
      | PyFloat y \<Rightarrow> Inr (y < x)
      | PyOther \<Rightarrow> Inl TypeError)"

definition load_cache ::
    "minio \<Rightarrow> cache_file \<Rightarrow> bool \<Rightarrow> rat \<Rightarrow> rat \<Rightarrow> exn + cache \<times> cache_file" where
  "load_cache self file writable now now' =
     (case file of
        Absent \<Rightarrow> refresh_cache self writable now' Map.empty
      | Unreadable \<Rightarrow> Inl IOError
      | Malformed \<Rightarrow> Inl JSONDecodeError
      | NotAnObject \<Rightarrow> Inl TypeError
      | Snapshot cmap \<Rightarrow>
          (case cmap ''time'' of
             None \<Rightarrow> Inl KeyError
           | Some t \<Rightarrow>
               (case py_lt t (now + 900) of
                  Inl e \<Rightarrow> Inl e
                | Inr stale \<Rightarrow>
                    if stale then refresh_cache self writable now' cmap
                    else Inr (cmap, file))))"

section \<open>The store operations of class \<open>MinIO\<close>\<close>

text \<open>
  Each method makes one request to the store client.  What the client does with the
  request is an argument \<open>answer\<close> of the model: \<open>Inl e\<close> when the client raises \<open>e\<close>,
  \<open>Inr r\<close> when it returns \<open>r\<close>.  The result of a method is \<open>Inl e\<close> when the exception
  \<open>e\<close> leaves the method, and \<open>Inr\<close> of the returned value otherwise; \<open>None\<close> is Python's
  \<open>None\<close>.  \<open>str_exn\<close> is \<open>str(e)\<close>; no property depends on the texts it gives to the
  built-in exceptions.
\<close>

definition str_exn :: "exn \<Rightarrow> string" where
  "str_exn e =
     (case e of
        OverflowError \<Rightarrow> ''int too large to convert to float''
      | TypeError \<Rightarrow> ''unsupported operand type''
      | KeyError \<Rightarrow> ''key''
      | IOError \<Rightarrow> ''file cannot be opened''
      | JSONDecodeError \<Rightarrow> ''Expecting value''
      | StoreError msg \<Rightarrow> msg)"

definition apos :: string where
  "apos = [CHR 0x27]"

fun map_exn :: "('a \<Rightarrow> exn + 'b) \<Rightarrow> 'a list \<Rightarrow> exn + 'b list" where
  "map_exn f [] = Inr []"
| "map_exn f (x # xs) =
     (case f x of
        Inl e \<Rightarrow> Inl e
      | Inr y \<Rightarrow> (case map_exn f xs of Inl e \<Rightarrow> Inl e | Inr ys \<Rightarrow> Inr (y # ys)))"

definition dict_get :: "('k \<rightharpoonup> 'v) \<Rightarrow> 'k \<Rightarrow> 'v \<Rightarrow> 'v" where
  "dict_get d k dflt = (case d k of None \<Rightarrow> dflt | Some v \<Rightarrow> v)"

record folder_entry =
  f_name :: string
  f_path :: string
  f_size :: string
  f_url :: string

record file_entry =
  e_key :: string
  e_last_modified :: string
  e_size :: string
  e_path :: string

record listing =
  r_folders :: "folder_entry list"
  r_files :: "file_entry list"
  r_prefix :: "string list"
  r_bucket :: string

text \<open>
  \<^verbatim>\<open>
  def get_bucket_objects(self, prefix=''):
      response = {}
      try:
          objs = self.s3.meta.client.list_objects_v2(Bucket=self.bucket, Prefix=prefix, Delimiter='/')
          folders = objs.get('CommonPrefixes', None)
          files = objs.get('Contents', None)
          response['folders'] = []
          response['files'] = []
          response['prefix'] = objs.get('Prefix').split('/')[:-1]
          response['bucket'] = objs.get('Name')
          if folders:
              for folder in folders:
                  folder_name = folder['Prefix'].replace(prefix, '')[:-1]
                  folder_size = self.cache.get(folder['Prefix'], 0)
                  response['folders'].append({
                      "name": folder_name,
                      "path": folder['Prefix'],
                      "size": human_readable_size(folder_size),
                      "url": "?prefix={}".format(folder['Prefix'])
                  })
          if files:
              for file in files:
                  response['files'].append({
                      "key": file['Key'].replace(prefix, ''),
                      "last_modified": str(file['LastModified']),
                      "size": human_readable_size(file['Size']),
                      "path": file['Key']
                  })
      except Exception as e:
          print(e)
          return None, str(e)
      return response, None
  \<close>
  The method reads \<open>self.cache\<close> and assigns to no attribute; the model returns the
  instance next to the result, so that this is a statement about the model.
\<close>

definition folder_entry_of :: "minio \<Rightarrow> string \<Rightarrow> string \<Rightarrow> exn + folder_entry" where
  "folder_entry_of self pfx folder =
     (let folder_name = butlast (str_replace folder pfx '''');
          folder_size = dict_get (cache self) folder (PyInt 0)
      in case human_readable_size folder_size of
           Inl e \<Rightarrow> Inl e
         | Inr sz \<Rightarrow>
             Inr \<lparr> f_name = folder_name, f_path = folder, f_size = sz,
                   f_url = ''?prefix='' @ folder \<rparr>)"

definition file_entry_of :: "string \<Rightarrow> s3_object \<Rightarrow> exn + file_entry" where
  "file_entry_of pfx file =
     (case human_readable_size (PyInt (Size file)) of
        Inl e \<Rightarrow> Inl e
      | Inr sz \<Rightarrow>
          Inr \<lparr> e_key = str_replace (Key file) pfx '''', e_last_modified = LastModified file,
                e_size = sz, e_path = Key file \<rparr>)"

definition build_listing :: "minio \<Rightarrow> string \<Rightarrow> list_response \<Rightarrow> exn + listing" where
  "build_listing self pfx objs =
     (case map_exn (folder_entry_of self pfx) (CommonPrefixes objs) of
        Inl e \<Rightarrow> Inl e
      | Inr fs \<Rightarrow>
          (case map_exn (file_entry_of pfx) (Contents objs) of
             Inl e \<Rightarrow> Inl e
           | Inr es \<Rightarrow>
               Inr \<lparr> r_folders = fs, r_files = es,
                     r_prefix = butlast (str_split (Prefix objs) (CHR ''/'')),
                     r_bucket = Name objs \<rparr>))"

definition get_bucket_objects ::
    "minio \<Rightarrow> string \<Rightarrow> exn + list_response
       \<Rightarrow> (exn + listing option \<times> string option) \<times> minio" where
  "get_bucket_objects self pfx answer =
     (case (case answer of Inl e \<Rightarrow> Inl e | Inr objs \<Rightarrow> build_listing self pfx objs) of
        Inl e \<Rightarrow> (Inr (None, Some (str_exn e)), self)
      | Inr response \<Rightarrow> (Inr (Some response, None), self))"

text \<open>
  \<^verbatim>\<open>
  def get_object(self, path):
      content_object = self.s3.Object(self.bucket, path)
      file_name = path.split('/')[-1]
      file_content = content_object.get()['Body'].read()
      return file_name, file_content
  \<close>
\<close>

definition get_object :: "minio \<Rightarrow> string \<Rightarrow> exn + string \<Rightarrow> exn + string \<times> string" where
  "get_object self path answer =
     (let file_name = last (str_split path (CHR ''/''))
      in case answer of
           Inl e \<Rightarrow> Inl e
         | Inr file_content \<Rightarrow> Inr (file_name, file_content))"

record head_response =
  ContentLength :: int
  h_LastModified :: string
  ContentType :: string
  ETag :: string
  Metadata :: "(string \<times> string) list option"

record object_details =
  d_Size :: string
  d_LastModified :: string
  d_ContentType :: string
  d_ETag :: string
  d_Metadata :: "(string \<times> string) list"

text \<open>
  \<^verbatim>\<open>
  def get_object_info(self, key):
      try:
          response = self.s3.meta.client.head_object(Bucket=self.bucket, Key=key)
          object_details = {
              'Size': human_readable_size(response['ContentLength']),
              'LastModified': str(response['LastModified']),
              'ContentType': response['ContentType'],
              'ETag': response['ETag'],
              'Metadata': response.get('Metadata', {})
          }
          return object_details, None
      except Exception as e:
          print(e)
          return None, e
  \<close>
\<close>

definition get_object_info ::
    "minio \<Rightarrow> string \<Rightarrow> exn + head_response \<Rightarrow> exn + object_details option \<times> exn option" where
  "get_object_info self key answer =
     (case (case answer of
              Inl e \<Rightarrow> Inl e
            | Inr response \<Rightarrow>
                (case human_readable_size (PyInt (ContentLength response)) of
                   Inl e \<Rightarrow> Inl e
                 | Inr sz \<Rightarrow>
                     Inr \<lparr> d_Size = sz, d_LastModified = h_LastModified response,
                           d_ContentType = ContentType response, d_ETag = ETag response,
                           d_Metadata = (case Metadata response of None \<Rightarrow> [] | Some m \<Rightarrow> m) \<rparr>)) of
        Inl e \<Rightarrow> Inr (None, Some e)
      | Inr details \<Rightarrow> Inr (Some details, None))"

text \<open>
  \<^verbatim>\<open>
  def delete_object(self, key):
      try:
          response = self.s3.meta.client.delete_object(Bucket=self.bucket, Key=key)
          if response.get('ResponseMetadata', {}).get('HTTPStatusCode') == 204:
              message = {"message": f"Object '{key}' deleted successfully from bucket '{self.bucket}'."}
          else:
              message = {"message": f"Failed to delete object '{key}' from bucket '{self.bucket}'."}
          return message, None
      except Exception as e:
          print(e)
          return None, f"Could not delete object '{key}' , {e}"
  \<close>
  The answer of the client is the HTTP status code of the response, when it has one.
\<close>

definition delete_object ::
    "minio \<Rightarrow> string \<Rightarrow> exn + int option \<Rightarrow> exn + string option \<times> string option" where
  "delete_object self key answer =
     (case answer of
        Inl e \<Rightarrow> Inr (None, Some (''Could not delete object '' @ apos @ key @ apos @ '' , '' @ str_exn e))
      | Inr status \<Rightarrow>
          Inr (Some (if status = Some 204
                     then ''Object '' @ apos @ key @ apos @ '' deleted successfully from bucket '' @ apos
                          @ bucket self @ apos @ ''.''
                     else ''Failed to delete object '' @ apos @ key @ apos @ '' from bucket '' @ apos
                          @ bucket self @ apos @ ''.''),
               None))"

text \<open>
  \<^verbatim>\<open>
  def put_object(self, key, data):
      try:
          s3object = self.s3.Object(self.bucket, key)
          response = s3object.put(Body=(data))
          if response["ResponseMetadata"]["HTTPStatusCode"] != 200:
              return {"message": f"Failed to add Object '{key}'."}
          return {"message": f"Object '{key}' was added successfully."}, None
      except Exception as e:
          print(e)
          return None, str(e)
  \<close>
  One branch returns a single dictionary instead of a pair.
\<close>

datatype put_result = Returned_pair "string option" "string option" | Returned_single string

definition put_object ::
    "minio \<Rightarrow> string \<Rightarrow> string \<Rightarrow> exn + int option \<Rightarrow> exn + put_result" where
  "put_object self key data answer =
     (case answer of
        Inl e \<Rightarrow> Inr (Returned_pair None (Some (str_exn e)))
      | Inr None \<Rightarrow> Inr (Returned_pair None (Some (str_exn KeyError)))
      | Inr (Some status) \<Rightarrow>
          if status \<noteq> 200 then Inr (Returned_single (''Failed to add Object '' @ apos @ key @ apos @ ''.''))
          else Inr (Returned_pair (Some (''Object '' @ apos @ key @ apos @ '' was added successfully.'')) None))"

section \<open>Example buckets\<close>

text \<open>Concrete instances on which the properties below are evaluated.\<close>

definition empty_bucket :: minio where
  "empty_bucket = \<lparr> s3 = [], bucket = ''demo'', cache = Map.empty \<rparr>"


definition young_snapshot :: cache where
  "young_snapshot = [''time'' \<mapsto> PyFloat 999]"

definition nested_bucket :: minio where
  "nested_bucket =
     \<lparr> s3 = [\<lparr>Key = ''a/a/x.txt'', Size = 5, LastModified = ''2024-01-01''\<rparr>],
       bucket = ''demo'', cache = Map.empty \<rparr>"

text \<open>
  The bucket of the specification's end-to-end example, with the cache a refresh of it
  produces, and a dictionary holding a folder that is not in that bucket.
\<close>

definition spec_bucket :: minio where
  "spec_bucket =
     \<lparr> s3 = [\<lparr>Key = ''a/b/y.txt'', Size = 200, LastModified = ''2024-01-01''\<rparr>,
             \<lparr>Key = ''a/x.txt'', Size = 100, LastModified = ''2024-01-01''\<rparr>,
             \<lparr>Key = ''c.txt'', Size = 50, LastModified = ''2024-01-01''\<rparr>],
       bucket = ''demo'', cache = [''a/'' \<mapsto> PyInt 300, ''a/b/'' \<mapsto> PyInt 200] \<rparr>"

definition stale_cache :: cache where
  "stale_cache = [''old/'' \<mapsto> PyInt 7]"

text \<open>Buckets for the naming of listing entries.\<close>

definition overlap_bucket :: minio where
  "overlap_bucket =
     \<lparr> s3 = [\<lparr>Key = ''aaa'', Size = 1, LastModified = ''2024-01-01''\<rparr>],
       bucket = ''demo'', cache = Map.empty \<rparr>"

definition report_bucket :: minio where
  "report_bucket =
     \<lparr> s3 = [\<lparr>Key = ''a-data.txt'', Size = 1, LastModified = ''2024-01-01''\<rparr>],
       bucket = ''demo'', cache = Map.empty \<rparr>"

section \<open>Notions used in the properties\<close>

text \<open>
  The sum of the sizes of all objects whose key starts with a prefix, as the
  specification words the size of a folder.
\<close>

definition prefix_total :: "minio \<Rightarrow> string \<Rightarrow> int" where
  "prefix_total self pfx = sum_list (map Size (filter (\<lambda>obj. prefix pfx (Key obj)) (s3 self)))"

text \<open>
  The prefix on which \<open>calculate_folder_size\<close> calls itself for a listed common prefix;
  the size it returns and the entries it writes when it starts from the empty
  dictionary.
\<close>

definition child_prefix :: "string \<Rightarrow> string \<Rightarrow> string" where
  "child_prefix pfx folder = pfx @ butlast (str_replace folder pfx '''') @ ''/''"

definition folder_total :: "minio \<Rightarrow> string \<Rightarrow> int" where
  "folder_total self pfx = fst (calculate_folder_size self pfx Map.empty)"

definition folder_writes :: "minio \<Rightarrow> string \<Rightarrow> cache" where
  "folder_writes self pfx = snd (calculate_folder_size self pfx Map.empty)"






section \<open>Properties of \<open>human_readable_size\<close>\<close>

subsection \<open>The conversion of an integer to a double\<close>

lemma bit_length_bounds:
  "0 < m \<Longrightarrow> 2 ^ (bit_length m - 1) \<le> m \<and> m < 2 ^ bit_length m"
proof (induction m rule: bit_length.induct)
  case (1 m)
  show ?case
  proof (cases "m div 2 \<le> 0")
    case True
    with "1.prems" have "m = 1" by linarith
    then show ?thesis by (simp add: bit_length.simps [of 1] bit_length.simps [of 0])
  next
    case False
    then have pos: "0 < m div 2" by simp
    from "1.IH" [OF _ pos] "1.prems"
    have ih: "2 ^ (bit_length (m div 2) - 1) \<le> m div 2" "m div 2 < 2 ^ bit_length (m div 2)"
      by simp_all
    have bl: "bit_length m = Suc (bit_length (m div 2))"
      using "1.prems" by (simp add: bit_length.simps [of m])
    have nz: "bit_length (m div 2) \<noteq> 0"
      using pos by (simp add: bit_length.simps [of "m div 2"])
    then have e: "(2::int) ^ bit_length (m div 2) = 2 * 2 ^ (bit_length (m div 2) - 1)"
      by (cases "bit_length (m div 2)") simp_all
    have "2 * (m div 2) \<le> m" "m < 2 * (m div 2) + 2" by linarith+
    with ih e show ?thesis by (simp add: bl)
  qed
qed

lemma bit_length_zero: "bit_length 0 = 0"
  by (simp add: bit_length.simps [of 0])

lemma bit_length_le:
  assumes "0 \<le> m" "m < 2 ^ k"
  shows "bit_length m \<le> k"
proof (cases "m = 0")
  case True
  then show ?thesis by (simp add: bit_length_zero)
next
  case False
  with assms have "0 < m" by simp
  from bit_length_bounds [OF this] assms(2)
  have "(2::int) ^ (bit_length m - 1) < 2 ^ k" by linarith
  then have "bit_length m - 1 < k" by simp
  then show ?thesis by linarith
qed

lemma bit_length_gt:
  assumes "2 ^ k \<le> m"
  shows "k < bit_length m"
proof -
  have "(0::int) < 2 ^ k" by simp
  with assms have "0 < m" by linarith
  from bit_length_bounds [OF this] assms
  have "(2::int) ^ k < 2 ^ bit_length m" by linarith
  then show ?thesis by simp
qed

lemma round_to_53_small: "bit_length m \<le> 53 \<Longrightarrow> round_to_53 m = m"
  by (simp add: round_to_53_def)

lemma round_to_53_bounds:
  assumes "0 < m"
  shows "2 ^ (bit_length m - 1) \<le> round_to_53 m \<and> round_to_53 m \<le> 2 ^ bit_length m"
proof (cases "bit_length m \<le> 53")
  case True
  with bit_length_bounds [OF assms] show ?thesis by (simp add: round_to_53_small)
next
  case False
  define sh where "sh = bit_length m - 53"
  define q where "q = m div 2 ^ sh"
  have bl: "bit_length m = 53 + sh" "bit_length m - 1 = 52 + sh"
    using False by (simp_all add: sh_def)
  from bit_length_bounds [OF assms]
  have m: "2 ^ 52 * 2 ^ sh \<le> m" "m < 2 ^ 53 * 2 ^ sh"
    by (simp_all add: bl power_add)
  have p: "(0::int) < 2 ^ sh" by simp
  have "(2 ^ 52 * 2 ^ sh) div 2 ^ sh \<le> m div 2 ^ sh"
    using m(1) p by (intro zdiv_mono1) simp_all
  then have q1: "2 ^ 52 \<le> q" by (simp add: q_def)
  have "q * 2 ^ sh \<le> m"
    unfolding q_def using div_mult_mod_eq [of m "2 ^ sh"] pos_mod_sign [OF p, of m] by linarith
  with m(2) have "q * 2 ^ sh < 2 ^ 53 * 2 ^ sh" by linarith
  then have q2: "q < 2 ^ 53"
    by (rule mult_right_less_imp_less) simp
  have r: "round_to_53 m = q * 2 ^ sh \<or> round_to_53 m = (q + 1) * 2 ^ sh"
    using False by (auto simp: round_to_53_def Let_def sh_def q_def)
  have lo: "2 ^ 52 * 2 ^ sh \<le> q * (2::int) ^ sh"
    using q1 by (intro mult_right_mono) simp_all
  have hi: "(q + 1) * (2::int) ^ sh \<le> 2 ^ 53 * 2 ^ sh"
    using q2 by (intro mult_right_mono) simp_all
  have mono: "q * (2::int) ^ sh \<le> (q + 1) * 2 ^ sh"
    by (intro mult_right_mono) simp_all
  from r lo hi mono show ?thesis
    by (auto simp: bl power_add)
qed

lemma round_to_53_ge_power:
  assumes "2 ^ k \<le> m"
  shows "2 ^ k \<le> round_to_53 m"
proof -
  have "(0::int) < 2 ^ k" by simp
  with assms have pos: "0 < m" by linarith
  from bit_length_gt [OF assms] have "k \<le> bit_length m - 1" by linarith
  then have "(2::int) ^ k \<le> 2 ^ (bit_length m - 1)"
    by (intro power_increasing) simp_all
  with round_to_53_bounds [OF pos] show ?thesis by linarith
qed

lemma round_to_53_le_power:
  assumes "0 \<le> m" "m < 2 ^ k"
  shows "round_to_53 m \<le> 2 ^ k"
proof (cases "m = 0")
  case True
  then show ?thesis by (simp add: round_to_53_small bit_length_zero)
next
  case False
  with assms have pos: "0 < m" by simp
  from bit_length_le [OF assms] have "(2::int) ^ bit_length m \<le> 2 ^ k"
    by (intro power_increasing) simp_all
  with round_to_53_bounds [OF pos] show ?thesis by linarith
qed

lemma bit_length_1024:
  assumes "2 ^ 1023 \<le> m" "m < 2 ^ 1024"
  shows "bit_length m = 1024"
proof -
  have "(0::int) < 2 ^ 1023" by (rule zero_less_power) simp
  with assms(1) have "0 \<le> m" by linarith
  from bit_length_le [OF this assms(2)] bit_length_gt [OF assms(1)]
  show ?thesis by linarith
qed

lemma round_to_53_at_1024:
  assumes "2 ^ 1023 \<le> m" "m < 2 ^ 1024"
  shows "round_to_53 m =
           (if 2 ^ 970 < m mod 2 ^ 971 \<or> (m mod 2 ^ 971 = 2 ^ 970 \<and> odd (m div 2 ^ 971))
            then m div 2 ^ 971 + 1 else m div 2 ^ 971) * 2 ^ 971"
proof -
  have "\<not> (1024::nat) \<le> 53" "(1024::nat) - 53 = 971" "(971::nat) - 1 = 970" by simp_all
  then show ?thesis
    unfolding round_to_53_def bit_length_1024 [OF assms] Let_def by (simp only: if_False)
qed

text \<open>The powers of two around the largest double, kept symbolic.\<close>

lemma double_range_facts:
  fixes K h :: int
  assumes "K = 2 ^ 971" "h = 2 ^ 970"
  shows "K = 2 * h" "0 < h" "2 ^ 1024 = 2 ^ 53 * K" "2 ^ 1023 = 2 ^ 52 * K"
proof -
  have "(2::int) ^ 971 = 2 ^ (Suc 970)" by simp
  then show "K = 2 * h" unfolding assms by (simp only: power_Suc)
  show "0 < h" unfolding assms by (rule zero_less_power) simp
  have "(2::int) ^ 1024 = 2 ^ (53 + 971)" by simp
  then show "2 ^ 1024 = 2 ^ 53 * K" unfolding assms by (simp only: power_add)
  have "(2::int) ^ 1023 = 2 ^ (52 + 971)" by simp
  then show "2 ^ 1023 = 2 ^ 52 * K" unfolding assms by (simp only: power_add)
qed

lemma round_to_53_no_overflow:
  assumes "0 \<le> m" "m < 2 ^ 1024 - 2 ^ 970"
  shows "round_to_53 m < 2 ^ 1024"
proof (cases "m < 2 ^ 1023")
  case True
  have "(2::int) ^ 1023 < 2 ^ 1024" by (rule power_strict_increasing) simp_all
  with round_to_53_le_power [OF assms(1) True] show ?thesis by linarith
next
  case False
  define K :: int where "K = 2 ^ 971"
  define h :: int where "h = 2 ^ 970"
  note f = double_range_facts [OF K_def h_def]
  from False have lo: "2 ^ 1023 \<le> m" by simp
  from assms(2) f(2) have hi: "m < 2 ^ 1024" unfolding h_def by linarith
  define q where "q = m div K"
  define r where "r = m mod K"
  have Kpos: "0 < K" using f(1,2) by linarith
  have d: "m = q * K + r" by (simp add: q_def r_def)
  have r0: "0 \<le> r" using Kpos by (simp add: r_def)
  have rd: "round_to_53 m = (if h < r \<or> (r = h \<and> odd q) then q + 1 else q) * K"
    unfolding q_def r_def K_def h_def by (rule round_to_53_at_1024 [OF lo hi])
  from assms(2) have m: "m < 2 ^ 53 * K - h" unfolding f(3) h_def .
  show ?thesis
  proof (cases "h < r \<or> (r = h \<and> odd q)")
    case True
    then have "h \<le> r" by auto
    with d m f(1) have "(q + 1) * K < 2 ^ 53 * K" by (simp add: algebra_simps)
    with rd True show ?thesis unfolding f(3) by (simp only: if_True)
  next
    case False
    from d r0 m f(2) have "q * K < 2 ^ 53 * K" by linarith
    with rd False show ?thesis unfolding f(3) by (simp only: if_False)
  qed
qed

lemma round_to_53_overflow:
  assumes "2 ^ 1024 - 2 ^ 970 \<le> m"
  shows "2 ^ 1024 \<le> round_to_53 m"
proof (cases "2 ^ 1024 \<le> m")
  case True
  then show ?thesis by (rule round_to_53_ge_power)
next
  case False
  define K :: int where "K = 2 ^ 971"
  define h :: int where "h = 2 ^ 970"
  note f = double_range_facts [OF K_def h_def]
  from False have hi: "m < 2 ^ 1024" by simp
  from assms have m: "2 ^ 53 * K - h \<le> m" unfolding f(3) h_def .
  have "(2::int) ^ 52 * K \<le> 2 ^ 53 * K - h" using f(1,2) by simp
  with m have lo: "2 ^ 1023 \<le> m" unfolding f(4) by linarith
  define q where "q = m div K"
  define r where "r = m mod K"
  have Kpos: "0 < K" using f(1,2) by linarith
  have d: "m = q * K + r" by (simp add: q_def r_def)
  have r0: "0 \<le> r" and r1: "r < K" using Kpos by (simp_all add: r_def)
  have rd: "round_to_53 m = (if h < r \<or> (r = h \<and> odd q) then q + 1 else q) * K"
    unfolding q_def r_def K_def h_def by (rule round_to_53_at_1024 [OF lo hi])
  from d r0 hi have "q * K < 2 ^ 53 * K" unfolding f(3) by linarith
  then have q1: "q < 2 ^ 53" by (rule mult_right_less_imp_less) (use Kpos in simp)
  have e1: "(2 ^ 53 - 1) * K = 2 ^ 53 * K - K" by (simp add: left_diff_distrib)
  have e2: "(q + 1) * K = q * K + K" by (simp add: distrib_right)
  from d r1 m f(1,2) have "(2 ^ 53 - 1) * K < (q + 1) * K" unfolding e1 e2 by linarith
  then have "2 ^ 53 - 1 < q + 1" by (rule mult_right_less_imp_less) (use Kpos in simp)
  with q1 have q: "q = 2 ^ 53 - 1" by simp
  from d [unfolded q e1] m f(1) have "h \<le> r" by linarith
  moreover have "odd q" unfolding q by simp
  ultimately have c: "h < r \<or> (r = h \<and> odd q)" by auto
  have "q + 1 = 2 ^ 53" unfolding q by simp
  with rd c show ?thesis unfolding f(3) by (simp only: if_True order_refl)
qed

lemma float_of_int_in_range:
  assumes "0 \<le> n" "n < 2 ^ 1024 - 2 ^ 970"
  shows "float_of_int n = Inr (of_int (round_to_53 n))"
proof -
  from round_to_53_no_overflow [OF assms] have "\<not> 2 ^ 1024 \<le> round_to_53 n" by linarith
  moreover have "\<bar>n\<bar> = n" "\<not> n < 0" using assms(1) by simp_all
  ultimately show ?thesis
    unfolding float_of_int_def Let_def by (simp only: if_False)
qed

lemma float_of_int_overflow:
  assumes "2 ^ 1024 - 2 ^ 970 \<le> n"
  shows "float_of_int n = Inl OverflowError"
proof -
  have "(2::int) ^ 970 < 2 ^ 1024" by (rule power_strict_increasing) simp_all
  with assms have "\<bar>n\<bar> = n" by linarith
  with round_to_53_overflow [OF assms] show ?thesis
    unfolding float_of_int_def Let_def by (simp only: if_True)
qed

subsection \<open>The loop and the result\<close>

lemma units_length: "length units = 9"
  by (simp add: units_def)

lemma hrs_loop_unfold_float:
  "hrs_loop (PyFloat y) i
     = (if 1024 \<le> y \<and> i < 8 then hrs_loop (PyFloat (y / 1024)) (i + 1)
        else Inr (PyFloat y, i))"
  by (subst hrs_loop.simps) (simp add: py_ge_1024_def py_div_1024_def units_length)

lemma hrs_loop_float:
  assumes "i \<le> 8"
  shows "\<exists>i'. hrs_loop (PyFloat y) i = Inr (PyFloat (y / 1024 ^ (i' - i)), i')
            \<and> i \<le> i' \<and> i' \<le> 8
            \<and> (i' < 8 \<longrightarrow> y / 1024 ^ (i' - i) < 1024)
            \<and> (i < i' \<longrightarrow> 1 \<le> y / 1024 ^ (i' - i))"
  using assms
proof (induction "8 - i" arbitrary: i y)
  case 0
  then have "i = 8" by simp
  then have "hrs_loop (PyFloat y) i = Inr (PyFloat (y / 1024 ^ (i - i)), i)"
    by (subst hrs_loop_unfold_float) simp
  with \<open>i = 8\<close> show ?case by blast
next
  case (Suc k)
  then have i: "i < 8" by simp
  show ?case
  proof (cases "1024 \<le> y")
    case False
    then have "hrs_loop (PyFloat y) i = Inr (PyFloat (y / 1024 ^ (i - i)), i)"
      by (subst hrs_loop_unfold_float) simp
    moreover from False have "y / 1024 ^ (i - i) < 1024" by simp
    ultimately show ?thesis using i by (intro exI [of _ i]) simp
  next
    case True
    with i have step: "hrs_loop (PyFloat y) i = hrs_loop (PyFloat (y / 1024)) (i + 1)"
      by (subst hrs_loop_unfold_float) simp
    from Suc.hyps(2) i have k: "k = 8 - (i + 1)" and le: "i + 1 \<le> 8" by simp_all
    from Suc.hyps(1) [OF k le, of "y / 1024"] obtain i' where
      r: "hrs_loop (PyFloat (y / 1024)) (i + 1)
            = Inr (PyFloat (y / 1024 / 1024 ^ (i' - (i + 1))), i')"
      and b: "i + 1 \<le> i'" "i' \<le> 8"
      and u: "i' < 8 \<longrightarrow> y / 1024 / 1024 ^ (i' - (i + 1)) < 1024"
      and l: "i + 1 < i' \<longrightarrow> 1 \<le> y / 1024 / 1024 ^ (i' - (i + 1))"
      by blast
    from b(1) have e: "i' - i = Suc (i' - (i + 1))" by simp
    have v: "y / 1024 / 1024 ^ (i' - (i + 1)) = y / 1024 ^ (i' - i)"
      unfolding e by simp
    have one: "1 \<le> y / 1024 ^ (i' - i)"
    proof (cases "i + 1 < i'")
      case True
      with l have "1 \<le> y / 1024 / 1024 ^ (i' - (i + 1))" by blast
      then show ?thesis unfolding v .
    next
      case False
      with b(1) have "i' = i + 1" by simp
      with \<open>1024 \<le> y\<close> show ?thesis by simp
    qed
    have r': "hrs_loop (PyFloat y) i = Inr (PyFloat (y / 1024 ^ (i' - i)), i')"
      using step r unfolding v by simp
    have u': "i' < 8 \<longrightarrow> y / 1024 ^ (i' - i) < 1024"
      using u unfolding v .
    have b': "i \<le> i'" using b(1) by simp
    from r' b' b(2) u' one show ?thesis by blast
  qed
qed

lemma hrs_loop_small_int:
  "n < 1024 \<Longrightarrow> hrs_loop (PyInt n) 0 = Inr (PyInt n, 0)"
  by (subst hrs_loop.simps) (simp add: py_ge_1024_def)

lemma hrs_loop_big_int:
  "1024 \<le> n \<Longrightarrow>
   hrs_loop (PyInt n) 0
     = (case float_of_int n of Inl e \<Rightarrow> Inl e | Inr x \<Rightarrow> hrs_loop (PyFloat (x / 1024)) 1)"
  by (subst hrs_loop.simps)
     (simp add: py_ge_1024_def py_div_1024_def units_length split: sum.splits)

lemma round_to_53_below_1024:
  assumes "0 \<le> n" "n < 1024"
  shows "round_to_53 n = n"
proof -
  have "n < 2 ^ 10" using assms(2) by simp
  from bit_length_le [OF assms(1) this] show ?thesis
    by (intro round_to_53_small) simp
qed

lemma small_below_limit:
  assumes "(n::int) < 1024"
  shows "n < 2 ^ 1024 - 2 ^ 970"
proof -
  have "(2::int) ^ 970 + 2 ^ 10 \<le> 2 ^ 970 + 2 ^ 970"
    by (intro add_left_mono power_increasing) simp_all
  also have "\<dots> = 2 ^ 971" by simp
  also have "\<dots> \<le> 2 ^ 1024" by (intro power_increasing) simp_all
  finally have "(2::int) ^ 10 \<le> 2 ^ 1024 - 2 ^ 970" by linarith
  with assms show ?thesis by simp
qed

text \<open>
  What \<open>human_readable_size\<close> returns for a positive integer that converts to a double
  \<open>x\<close>: \<open>x\<close> divided by \<open>1024 ^ d\<close> and printed with two decimals, followed by the unit
  number \<open>d\<close>, where \<open>d\<close> is at most 8 and the printed value is at least 1, and below
  1024 unless the unit is the last one.
\<close>

lemma human_readable_size_int:
  assumes "0 < n" "n < 2 ^ 1024 - 2 ^ 970"
  shows "\<exists>d. d \<le> 8
            \<and> human_readable_size (PyInt n)
                = Inr (format_2f_rat (of_int (round_to_53 n) / 1024 ^ d) @ '' '' @ units ! d)
            \<and> 1 \<le> (of_int (round_to_53 n) :: rat) / 1024 ^ d
            \<and> (d < 8 \<longrightarrow> (of_int (round_to_53 n) :: rat) / 1024 ^ d < 1024)"
proof -
  from assms have n0: "0 \<le> n" by simp
  have fl: "float_of_int n = Inr (of_int (round_to_53 n))"
    by (rule float_of_int_in_range [OF n0 assms(2)])
  have nz: "\<not> py_eq_zero (PyInt n)" using assms(1) by (simp add: py_eq_zero_def)
  show ?thesis
  proof (cases "n < 1024")
    case True
    have r: "round_to_53 n = n" by (rule round_to_53_below_1024 [OF n0 True])
    have "human_readable_size (PyInt n)
            = Inr (format_2f_rat (of_int (round_to_53 n) / 1024 ^ 0) @ '' '' @ units ! 0)"
      by (simp add: human_readable_size_def nz hrs_loop_small_int [OF True] format_2f_def fl)
    moreover have "1 \<le> (of_int (round_to_53 n) :: rat) / 1024 ^ 0"
      using assms(1) by (simp add: r)
    moreover have "(of_int (round_to_53 n) :: rat) / 1024 ^ 0 < 1024"
      using True by (simp add: r)
    ultimately show ?thesis by (intro exI [of _ 0]) (simp del: power_0)
  next
    case False
    then have big: "1024 \<le> n" by simp
    let ?x = "of_int (round_to_53 n) :: rat"
    from hrs_loop_float [of 1 "?x / 1024"] obtain i' where
      l: "hrs_loop (PyFloat (?x / 1024)) 1 = Inr (PyFloat (?x / 1024 / 1024 ^ (i' - 1)), i')"
      and b: "1 \<le> i'" "i' \<le> 8"
      and u: "i' < 8 \<longrightarrow> ?x / 1024 / 1024 ^ (i' - 1) < 1024"
      and o: "1 < i' \<longrightarrow> 1 \<le> ?x / 1024 / 1024 ^ (i' - 1)"
      by auto
    from b(1) have e: "i' = Suc (i' - 1)" by simp
    have v: "?x / 1024 / 1024 ^ (i' - 1) = ?x / 1024 ^ i'"
      by (subst (2) e) simp
    have "2 ^ 10 \<le> n" using big by simp
    then have "2 ^ 10 \<le> round_to_53 n" by (rule round_to_53_ge_power)
    then have x: "1024 \<le> ?x" by simp
    have one: "1 \<le> ?x / 1024 ^ i'"
    proof (cases "1 < i'")
      case True
      with o have "1 \<le> ?x / 1024 / 1024 ^ (i' - 1)" by blast
      then show ?thesis unfolding v .
    next
      case False
      with b(1) have "i' = 1" by simp
      with x show ?thesis by simp
    qed
    have l': "hrs_loop (PyFloat (?x / 1024)) (Suc 0) = Inr (PyFloat (?x / 1024 ^ i'), i')"
      using l unfolding v by simp
    have h: "human_readable_size (PyInt n)
            = Inr (format_2f_rat (?x / 1024 ^ i') @ '' '' @ units ! i')"
      by (simp add: human_readable_size_def nz hrs_loop_big_int [OF big] fl l' format_2f_def)
    have u': "i' < 8 \<longrightarrow> ?x / 1024 ^ i' < 1024"
      using u unfolding v .
    from b(2) h one u' show ?thesis by blast
  qed
qed

lemma human_readable_size_overflow:
  assumes "2 ^ 1024 - 2 ^ 970 \<le> n"
  shows "human_readable_size (PyInt n) = Inl OverflowError"
proof -
  from assms small_below_limit [of n] have big: "1024 \<le> n" by linarith
  then have nz: "\<not> py_eq_zero (PyInt n)" by (simp add: py_eq_zero_def)
  show ?thesis
    by (simp add: human_readable_size_def nz hrs_loop_big_int [OF big]
        float_of_int_overflow [OF assms])
qed


lemma human_readable_size_zero: "human_readable_size (PyInt 0) = Inr ''0 B''"
  by (simp add: human_readable_size_def py_eq_zero_def)

subsection \<open>What the format \<open>.2f\<close> prints\<close>










subsection \<open>The rendering of a byte count\<close>




text \<open>
  Claim C9, amended: for every nonnegative integer input \<open>human_readable_size\<close>
  terminates; for every input below \<open>2 ^ 1024 - 2 ^ 970\<close> it returns a string whose unit
  is one of the nine defined units, and every such input of \<open>1024 ^ 8\<close> bytes or more is
  rendered in YB; from \<open>2 ^ 1024 - 2 ^ 970\<close> on, the conversion of the integer to a float
  raises \<open>OverflowError\<close> and nothing is rendered.  No input leads to a unit index out of
  range.
\<close>

theorem human_readable_size_unit_index:
  assumes "0 \<le> n"
  shows "(n < 2 ^ 1024 - 2 ^ 970 \<longrightarrow>
           (\<exists>s i. i < length units
              \<and> human_readable_size (PyInt n) = Inr (s @ '' '' @ units ! i)
              \<and> (1024 ^ 8 \<le> n \<longrightarrow> units ! i = ''YB'')))
       \<and> (2 ^ 1024 - 2 ^ 970 \<le> n \<longrightarrow> human_readable_size (PyInt n) = Inl OverflowError)"
proof (intro conjI impI)
  assume lim: "n < 2 ^ 1024 - 2 ^ 970"
  show "\<exists>s i. i < length units
              \<and> human_readable_size (PyInt n) = Inr (s @ '' '' @ units ! i)
              \<and> (1024 ^ 8 \<le> n \<longrightarrow> units ! i = ''YB'')"
  proof (cases "n = 0")
    case True
    have "human_readable_size (PyInt n) = Inr (''0'' @ '' '' @ units ! 0)"
      unfolding True by (simp add: human_readable_size_zero units_def)
    moreover have "\<not> 1024 ^ 8 \<le> n" unfolding True by simp
    moreover have "0 < length units" by (simp add: units_length)
    ultimately show ?thesis by blast
  next
    case False
    with assms have pos: "0 < n" by simp
    let ?x = "of_int (round_to_53 n) :: rat"
    from human_readable_size_int [OF pos lim] obtain d where
      d: "d \<le> 8"
      and h: "human_readable_size (PyInt n) = Inr (format_2f_rat (?x / 1024 ^ d) @ '' '' @ units ! d)"
      and u: "d < 8 \<longrightarrow> ?x / 1024 ^ d < 1024"
      by blast
    have yb: "units ! d = ''YB''" if big: "1024 ^ 8 \<le> n"
    proof -
      have "(1024::int) ^ 8 = 2 ^ 80" by simp
      with big have "2 ^ 80 \<le> n" by simp
      then have "2 ^ 80 \<le> round_to_53 n" by (rule round_to_53_ge_power)
      then have "(2::rat) ^ 80 \<le> ?x"
        by (metis of_int_le_iff of_int_numeral of_int_power)
      moreover have "(2::rat) ^ 80 = 1024 ^ 8" by simp
      ultimately have x: "1024 ^ 8 \<le> ?x" by simp
      have "\<not> d < 8"
      proof
        assume less: "d < 8"
        with u have "?x / 1024 ^ d < 1024" by blast
        then have "?x < 1024 * 1024 ^ d" by (simp add: pos_divide_less_eq)
        also have "\<dots> = 1024 ^ Suc d" by simp
        also have "\<dots> \<le> 1024 ^ 8" using less by (intro power_increasing) simp_all
        finally show False using x by simp
      qed
      with d have "d = 8" by simp
      then show ?thesis by (simp add: units_def)
    qed
    from d have "d < length units" by (simp add: units_length)
    with h yb show ?thesis by blast
  qed
next
  assume "2 ^ 1024 - 2 ^ 970 \<le> n"
  then show "human_readable_size (PyInt n) = Inl OverflowError"
    by (rule human_readable_size_overflow)
qed

theorem human_readable_size_unit_index_witness:
  "(0::int) \<le> 1024 ^ 9 \<and> (1024::int) ^ 9 < 2 ^ 1024 - 2 ^ 970 \<and> (1024::int) ^ 8 \<le> 1024 ^ 9
   \<and> (\<exists>s i. i < length units
         \<and> human_readable_size (PyInt (1024 ^ 9)) = Inr (s @ '' '' @ units ! i)
         \<and> units ! i = ''YB'')
   \<and> human_readable_size (PyInt (1024 ^ 9)) = Inr ''1024.00 YB''
   \<and> (0::int) \<le> 2 ^ 1024 \<and> (2::int) ^ 1024 - 2 ^ 970 \<le> 2 ^ 1024
   \<and> human_readable_size (PyInt (2 ^ 1024)) = Inl OverflowError"
proof -
  have a: "(0::int) \<le> 1024 ^ 9" "(1024::int) ^ 9 < 2 ^ 1024 - 2 ^ 970"
    "(1024::int) ^ 8 \<le> 1024 ^ 9" "(0::int) \<le> 2 ^ 1024" "(2::int) ^ 1024 - 2 ^ 970 \<le> 2 ^ 1024"
    by simp_all
  have e: "human_readable_size (PyInt (1024 ^ 9)) = Inr ''1024.00 YB''" by code_simp
  from human_readable_size_unit_index [OF a(1)] human_readable_size_unit_index [OF a(4)] a e
  show ?thesis by blast
qed

text \<open>
  Claim C9, as stated (every input of \<open>1024 ^ 8\<close> bytes or more is rendered in YB), fails
  for the integers that do not fit a double: \<open>human_readable_size(2 ** 1024)\<close> raises
  \<open>OverflowError\<close> at \<open>bytes /= 1024.0\<close>.
\<close>

theorem human_readable_size_overflows:
  "(0::int) \<le> 2 ^ 1024 \<and> (1024::int) ^ 8 \<le> 2 ^ 1024
   \<and> human_readable_size (PyInt (2 ^ 1024)) = Inl OverflowError"
proof -
  have "human_readable_size (PyInt (2 ^ 1024)) = Inl OverflowError" by code_simp
  then show ?thesis by simp
qed

section \<open>Properties of \<open>load_cache\<close>\<close>

lemma list_empty_bucket: "CommonPrefixes (list_objects_v2 empty_bucket pfx) = []"
  by (simp add: list_objects_v2_def empty_bucket_def)

lemma refresh_empty_bucket:
  "refresh_cache empty_bucket True now cmap
     = Inr (cmap(''time'' \<mapsto> PyFloat now), Snapshot (cmap(''time'' \<mapsto> PyFloat now)))"
  by (simp add: refresh_cache_def list_empty_bucket Let_def)

text \<open>
  What the comparison \<open>cache['time'] < time() + 900\<close> decides: a snapshot stamped \<open>t\<close> is
  rebuilt exactly when \<open>t < now + 900\<close>, that is unless it is stamped at least 900
  seconds in the future.
\<close>

lemma load_cache_numeric_time:
  "cmap ''time'' = Some (PyFloat t) \<Longrightarrow>
   load_cache self (Snapshot cmap) w now now'
     = (if t < now + 900 then refresh_cache self w now' cmap else Inr (cmap, Snapshot cmap))"
  by (simp add: load_cache_def py_lt_def)

text \<open>
  Claim C1: \<open>load_cache\<close> rebuilds a persisted snapshot if and only if
  \<open>now - last_refreshed\<close> exceeds 900 seconds, and uses the snapshot unchanged otherwise.
  The code does not do this: at clock 1000 a snapshot stamped 999, one second old, is
  passed to \<open>refresh_cache\<close> and comes back restamped 1000.
\<close>

theorem load_cache_refreshes_young_snapshot:
  "load_cache empty_bucket (Snapshot young_snapshot) True 1000 1000
     = refresh_cache empty_bucket True 1000 young_snapshot
   \<and> (case load_cache empty_bucket (Snapshot young_snapshot) True 1000 1000 of
        Inl e \<Rightarrow> False
      | Inr (c, f) \<Rightarrow> c ''time'' = Some (PyFloat 1000) \<and> young_snapshot ''time'' = Some (PyFloat 999))"
  by (simp add: load_cache_def py_lt_def young_snapshot_def refresh_empty_bucket)

text \<open>
  Claim C4, as stated (for every state of the file \<open>load_cache\<close> never fails and falls
  back to a refresh of the empty cache on any read error), fails: a file that is not
  JSON makes \<open>load_cache\<close> raise.
\<close>

theorem load_cache_malformed_fails:
  "load_cache empty_bucket Malformed True 1000 1000 = Inl JSONDecodeError"
  by (simp add: load_cache_def)

text \<open>
  Claim C4, amended: \<open>load_cache\<close> falls back to a refresh of the empty cache only when
  the file is absent; when the file exists but cannot be opened, is not JSON, or has no
  \<open>time\<close> field, \<open>load_cache\<close> raises the error and returns no cache.
\<close>

theorem load_cache_read_errors:
  "load_cache self Absent w now now' = refresh_cache self w now' Map.empty
   \<and> load_cache self Unreadable w now now' = Inl IOError
   \<and> load_cache self Malformed w now now' = Inl JSONDecodeError
   \<and> (cmap ''time'' = None \<longrightarrow> load_cache self (Snapshot cmap) w now now' = Inl KeyError)"
  by (simp add: load_cache_def)

theorem load_cache_read_errors_witness:
  "load_cache empty_bucket Absent True 1000 1000 = refresh_cache empty_bucket True 1000 Map.empty
   \<and> load_cache empty_bucket Unreadable True 1000 1000 = Inl IOError
   \<and> load_cache empty_bucket Malformed True 1000 1000 = Inl JSONDecodeError
   \<and> ([''a/'' \<mapsto> PyInt 300] :: cache) ''time'' = None
   \<and> load_cache empty_bucket (Snapshot [''a/'' \<mapsto> PyInt 300]) True 1000 1000 = Inl KeyError"
  using load_cache_read_errors [of empty_bucket True 1000 1000 "[''a/'' \<mapsto> PyInt 300]"]
  by simp

section \<open>Properties of the store operations\<close>

text \<open>
  Four of the five operations catch what the store client raises and return it next to
  \<open>None\<close>.
\<close>

lemma caught_at_boundary:
  "fst (get_bucket_objects self pfx (Inl e)) = Inr (None, Some (str_exn e))"
  "get_object_info self key (Inl e) = Inr (None, Some e)"
  "\<exists>msg. delete_object self key (Inl e) = Inr (None, Some msg)"
  "put_object self key data (Inl e) = Inr (Returned_pair None (Some (str_exn e)))"
  by (simp_all add: get_bucket_objects_def get_object_info_def delete_object_def put_object_def)

lemma get_object_failure: "get_object self path (Inl e) = Inl e"
  by (simp add: get_object_def)

text \<open>
  Claim C5: every store failure in \<open>get_bucket_objects\<close>, \<open>get_object\<close>,
  \<open>get_object_info\<close>, \<open>delete_object\<close> and \<open>put_object\<close> is caught and returned as an
  error paired with a null result.  \<open>get_object\<close> has no handler: when the store raises
  for a missing key, the exception leaves the method.
\<close>

theorem get_object_propagates:
  "get_object empty_bucket ''missing.txt'' (Inl (StoreError ''NoSuchKey''))
     = Inl (StoreError ''NoSuchKey'')"
  by (simp add: get_object_def)



section \<open>Properties of \<open>calculate_folder_size\<close>\<close>

lemma calculate_folder_size_unfold:
  "calculate_folder_size self pfx cmap =
     (let objs = list_objects_v2 self pfx;
          (total_size, cmap') =
            fold (\<lambda>folder (total_size, cmap).
                    let (sub_size, cmap) = calculate_folder_size self (child_prefix pfx folder) cmap
                    in (total_size + sub_size, cmap))
                 (CommonPrefixes objs) (0, cmap);
          total = fold (\<lambda>file total_size. total_size + Size file) (Contents objs) total_size
      in (total, cmap'(pfx \<mapsto> PyInt total)))"
  by (subst calculate_folder_size.simps) (simp add: Let_def child_prefix_def)

lemma map_add_fold_out:
  "fold (\<lambda>f m. m ++ w f) fs (c ++ a) = c ++ fold (\<lambda>f m. m ++ w f) fs a"
  by (induction fs arbitrary: a) (simp_all del: map_add_assoc add: map_add_assoc [symmetric])

lemma folders_fold_frame:
  assumes "\<And>f c. f \<in> set fs \<Longrightarrow> g f c = (sz f, c ++ w f)"
  shows "fold (\<lambda>f (t, c). case g f c of (s, c') \<Rightarrow> (t + s, c')) fs (t, c)
           = (t + sum_list (map sz fs), c ++ fold (\<lambda>f m. m ++ w f) fs Map.empty)"
  using assms
proof (induction fs arbitrary: t c)
  case Nil
  then show ?case by simp
next
  case (Cons f fs)
  have "fold (\<lambda>f m. m ++ w f) fs (w f) = w f ++ fold (\<lambda>f m. m ++ w f) fs Map.empty"
    using map_add_fold_out [of w fs "w f" Map.empty] by simp
  with Cons show ?case by (simp add: add.assoc)
qed

text \<open>
  The size returned does not depend on the dictionary passed in, and the dictionary
  returned is the one passed in, overridden by what the traversal writes.
\<close>

lemma calculate_folder_size_frame:
  "calculate_folder_size self pfx cmap = (folder_total self pfx, cmap ++ folder_writes self pfx)"
proof (induction self pfx cmap rule: calculate_folder_size.induct)
  case (1 self pfx cmap)
  let ?fs = "CommonPrefixes (list_objects_v2 self pfx)"
  let ?g = "\<lambda>f c. calculate_folder_size self (child_prefix pfx f) c"
  let ?sz = "\<lambda>f. folder_total self (child_prefix pfx f)"
  let ?w = "\<lambda>f. folder_writes self (child_prefix pfx f)"
  have ih: "?g f c = (?sz f, c ++ ?w f)" if "f \<in> set ?fs" for f c
    unfolding child_prefix_def by (rule "1.IH" [OF refl refl refl that refl])
  have fr: "fold (\<lambda>f (t, c). case ?g f c of (s, c') \<Rightarrow> (t + s, c')) ?fs (t, c)
           = (t + sum_list (map ?sz ?fs), c ++ fold (\<lambda>f m. m ++ ?w f) ?fs Map.empty)" for t c
    by (rule folders_fold_frame) (rule ih)
  show ?case
    unfolding folder_total_def [of self pfx] folder_writes_def [of self pfx]
    by (subst (1 2 3) calculate_folder_size_unfold) (simp add: Let_def fr)
qed

lemma nested_list_inner:
  "list_objects_v2 nested_bucket ''a//''
     = \<lparr>CommonPrefixes = [], Contents = [], Prefix = ''a//'', Name = ''demo''\<rparr>"
  by (simp add: list_objects_v2_def nested_bucket_def)

lemma nested_list_outer:
  "list_objects_v2 nested_bucket ''a/''
     = \<lparr>CommonPrefixes = [''a/a/''], Contents = [], Prefix = ''a/'', Name = ''demo''\<rparr>"
  by (simp add: list_objects_v2_def nested_bucket_def)

lemma nested_inner:
  "calculate_folder_size nested_bucket ''a//'' c = (0, c(''a//'' \<mapsto> PyInt 0))"
  by (subst calculate_folder_size.simps) (simp add: nested_list_inner)

lemma nested_outer:
  "calculate_folder_size nested_bucket ''a/'' c
     = (0, c(''a//'' \<mapsto> PyInt 0, ''a/'' \<mapsto> PyInt 0))"
  by (subst calculate_folder_size.simps)
     (simp add: nested_list_outer nested_inner str_replace_def)

lemma nested_totals:
  "prefix_total nested_bucket ''a/'' = 5" "prefix_total nested_bucket ''a/a/'' = 5"
  by (simp_all add: prefix_total_def nested_bucket_def)

text \<open>
  Claim C2: for every object store and every prefix ending in \<open>/\<close>,
  \<open>calculate_folder_size(prefix)\<close> returns the sum of the sizes of all objects whose key
  starts with the prefix, at any nesting depth.  The code does not: in a bucket whose
  only object is \<open>a/a/x.txt\<close> (5 bytes), the listing of \<open>a/\<close> gives the common prefix
  \<open>a/a/\<close>, from which \<open>replace\<close> removes both occurrences of \<open>a/\<close>; the recursion goes to
  \<open>a//\<close> instead of \<open>a/a/\<close> and the size returned for \<open>a/\<close> is 0, not 5.
\<close>

theorem calculate_folder_size_misses_nested:
  "fst (calculate_folder_size nested_bucket ''a/'' Map.empty) = 0
   \<and> prefix_total nested_bucket ''a/'' = 5"
  by (simp add: nested_outer nested_totals)

text \<open>
  Claim C7: after \<open>calculate_folder_size(prefix, cache)\<close> the dictionary has an entry for
  the prefix and every folder below it, each mapped to the total size of that folder.
  In the same bucket the folder \<open>a/a/\<close>, listed below \<open>a/\<close> and holding 5 bytes, gets no
  entry, and \<open>a/\<close> is mapped to 0.
\<close>

theorem calculate_folder_size_skips_folder:
  "''a/a/'' \<in> set (CommonPrefixes (list_objects_v2 nested_bucket ''a/''))
   \<and> prefix_total nested_bucket ''a/a/'' = 5
   \<and> snd (calculate_folder_size nested_bucket ''a/'' Map.empty) ''a/a/'' = None
   \<and> snd (calculate_folder_size nested_bucket ''a/'' Map.empty) ''a/'' = Some (PyInt 0)"
  by (simp add: nested_outer nested_list_outer nested_totals)

section \<open>The specification's example bucket\<close>

lemma spec_list_root:
  "list_objects_v2 spec_bucket ''''
     = \<lparr>CommonPrefixes = [''a/''],
        Contents = [\<lparr>Key = ''c.txt'', Size = 50, LastModified = ''2024-01-01''\<rparr>],
        Prefix = '''', Name = ''demo''\<rparr>"
  by (simp add: list_objects_v2_def spec_bucket_def)

lemma spec_list_a:
  "list_objects_v2 spec_bucket ''a/''
     = \<lparr>CommonPrefixes = [''a/b/''],
        Contents = [\<lparr>Key = ''a/x.txt'', Size = 100, LastModified = ''2024-01-01''\<rparr>],
        Prefix = ''a/'', Name = ''demo''\<rparr>"
  by (simp add: list_objects_v2_def spec_bucket_def)

lemma spec_list_ab:
  "list_objects_v2 spec_bucket ''a/b/''
     = \<lparr>CommonPrefixes = [],
        Contents = [\<lparr>Key = ''a/b/y.txt'', Size = 200, LastModified = ''2024-01-01''\<rparr>],
        Prefix = ''a/b/'', Name = ''demo''\<rparr>"
  by (simp add: list_objects_v2_def spec_bucket_def)

lemma spec_size_ab:
  "calculate_folder_size spec_bucket ''a/b/'' c = (200, c(''a/b/'' \<mapsto> PyInt 200))"
  by (subst calculate_folder_size.simps) (simp add: spec_list_ab)

lemma spec_size_a:
  "calculate_folder_size spec_bucket ''a/'' c
     = (300, c(''a/b/'' \<mapsto> PyInt 200, ''a/'' \<mapsto> PyInt 300))"
  by (subst calculate_folder_size.simps)
     (simp add: spec_list_a spec_size_ab str_replace_def)

text \<open>A refresh of the example bucket gives the entries the specification lists.\<close>

lemma spec_refresh:
  "refresh_cache spec_bucket True now c
     = Inr (c(''a/b/'' \<mapsto> PyInt 200, ''a/'' \<mapsto> PyInt 300, ''time'' \<mapsto> PyFloat now),
            Snapshot (c(''a/b/'' \<mapsto> PyInt 200, ''a/'' \<mapsto> PyInt 300, ''time'' \<mapsto> PyFloat now)))"
  by (simp add: refresh_cache_def spec_list_root spec_size_a Let_def)

text \<open>The listing of its root shows folder \<open>a\<close> with 300 bytes and file \<open>c.txt\<close>.\<close>

lemma spec_listing:
  "fst (get_bucket_objects spec_bucket '''' (Inr (list_objects_v2 spec_bucket '''')))
     = Inr (Some \<lparr> r_folders = [\<lparr>f_name = ''a'', f_path = ''a/'', f_size = ''300.00 B'',
                                   f_url = ''?prefix=a/''\<rparr>],
                     r_files = [\<lparr>e_key = ''c.txt'', e_last_modified = ''2024-01-01'',
                                 e_size = ''50.00 B'', e_path = ''c.txt''\<rparr>],
                     r_prefix = [], r_bucket = ''demo'' \<rparr>, None)"
proof -
  have h: "human_readable_size (PyInt 300) = Inr ''300.00 B''"
          "human_readable_size (PyInt 50) = Inr ''50.00 B''"
    by code_simp+
  have c: "cache spec_bucket ''a/'' = Some (PyInt 300)" by (simp add: spec_bucket_def)
  show ?thesis
    by (simp add: get_bucket_objects_def build_listing_def spec_list_root folder_entry_of_def
        file_entry_of_def dict_get_def c h str_replace_def)
qed

section \<open>Properties of \<open>refresh_cache\<close>\<close>

lemma top_fold_frame:
  "fold (\<lambda>folder_name cmap.
           case calculate_folder_size self folder_name cmap of
             (folder_size, cmap) \<Rightarrow> cmap(folder_name \<mapsto> PyInt folder_size))
        fs cmap
   = cmap ++ fold (\<lambda>folder_name cmap.
           case calculate_folder_size self folder_name cmap of
             (folder_size, cmap) \<Rightarrow> cmap(folder_name \<mapsto> PyInt folder_size))
        fs Map.empty"
proof (induction fs arbitrary: cmap)
  case Nil
  show ?case by simp
next
  case (Cons f fs)
  let ?step = "\<lambda>folder_name cmap.
           case calculate_folder_size self folder_name cmap of
             (folder_size, cmap) \<Rightarrow> cmap(folder_name \<mapsto> PyInt folder_size)"
  let ?e = "(folder_writes self f)(f \<mapsto> PyInt (folder_total self f))"
  have s: "?step f c = c ++ ?e" for c
    by (simp add: calculate_folder_size_frame)
  have "fold ?step (f # fs) cmap = fold ?step fs (cmap ++ ?e)"
    by (simp add: s)
  also have "\<dots> = (cmap ++ ?e) ++ fold ?step fs Map.empty"
    by (rule Cons.IH)
  also have "\<dots> = cmap ++ (?e ++ fold ?step fs Map.empty)"
    by simp
  also have "?e ++ fold ?step fs Map.empty = fold ?step fs ?e"
    by (rule Cons.IH [symmetric])
  also have "fold ?step fs ?e = fold ?step (f # fs) Map.empty"
    by (simp add: s)
  finally show ?case .
qed

text \<open>
  Claim C3, as stated (after a refresh the cache holds exactly the entries computed in
  that refresh and the timestamp; no key present before and absent from the store's
  folder tree survives), fails: \<open>refresh_cache\<close> writes into the dictionary it is given.
  Refreshing the example bucket from a dictionary that holds \<open>old/\<close> keeps \<open>old/\<close>, which
  a refresh from the empty dictionary does not produce.
\<close>

theorem refresh_cache_keeps_stale_key:
  "(case refresh_cache spec_bucket True 1000 stale_cache of
      Inl e \<Rightarrow> False
    | Inr (c, f) \<Rightarrow> c ''old/'' = Some (PyInt 7))
   \<and> (case refresh_cache spec_bucket True 1000 Map.empty of
        Inl e \<Rightarrow> False
      | Inr (c, f) \<Rightarrow> c ''old/'' = None)"
  by (simp add: spec_refresh stale_cache_def)

text \<open>
  Claim C3, amended: after a refresh the cache is the prior cache overridden by the
  entries computed in that refresh and the timestamp; a key present before the refresh
  and not computed by it survives with its old value.  The file written holds the same
  dictionary.
\<close>

theorem refresh_cache_overrides:
  assumes "refresh_cache self w now cmap = Inr (c', f')"
    and "refresh_cache self w now Map.empty = Inr (fresh, f0)"
  shows "c' = cmap ++ fresh \<and> f' = Snapshot c' \<and> (\<forall>k. k \<notin> dom fresh \<longrightarrow> c' k = cmap k)"
proof -
  let ?step = "\<lambda>folder_name cmap.
           case calculate_folder_size self folder_name cmap of
             (folder_size, cmap) \<Rightarrow> cmap(folder_name \<mapsto> PyInt folder_size)"
  let ?fs = "CommonPrefixes (list_objects_v2 self '''')"
  from assms(1) have w: w by (auto simp: refresh_cache_def Let_def split: if_splits)
  from assms(2) w have fresh: "fresh = (fold ?step ?fs Map.empty)(''time'' \<mapsto> PyFloat now)"
    by (auto simp: refresh_cache_def Let_def)
  from assms(1) w have c': "c' = (fold ?step ?fs cmap)(''time'' \<mapsto> PyFloat now)"
    and f': "f' = Snapshot c'"
    by (auto simp: refresh_cache_def Let_def)
  have "c' = cmap ++ fresh"
    unfolding c' fresh by (subst top_fold_frame) simp
  moreover have "\<forall>k. k \<notin> dom fresh \<longrightarrow> (cmap ++ fresh) k = cmap k"
    by (auto simp: map_add_def split: option.splits)
  ultimately show ?thesis using f' by simp
qed

theorem refresh_cache_overrides_witness:
  "refresh_cache spec_bucket True 1000 stale_cache
      = Inr (stale_cache(''a/b/'' \<mapsto> PyInt 200, ''a/'' \<mapsto> PyInt 300, ''time'' \<mapsto> PyFloat 1000),
             Snapshot (stale_cache(''a/b/'' \<mapsto> PyInt 200, ''a/'' \<mapsto> PyInt 300,
                                   ''time'' \<mapsto> PyFloat 1000)))
   \<and> refresh_cache spec_bucket True 1000 Map.empty
      = Inr ([''a/b/'' \<mapsto> PyInt 200, ''a/'' \<mapsto> PyInt 300, ''time'' \<mapsto> PyFloat 1000],
             Snapshot [''a/b/'' \<mapsto> PyInt 200, ''a/'' \<mapsto> PyInt 300, ''time'' \<mapsto> PyFloat 1000])
   \<and> stale_cache(''a/b/'' \<mapsto> PyInt 200, ''a/'' \<mapsto> PyInt 300, ''time'' \<mapsto> PyFloat 1000)
      = stale_cache ++ [''a/b/'' \<mapsto> PyInt 200, ''a/'' \<mapsto> PyInt 300, ''time'' \<mapsto> PyFloat 1000]
   \<and> ''old/'' \<notin> dom [''a/b/'' \<mapsto> PyInt 200, ''a/'' \<mapsto> PyInt 300, ''time'' \<mapsto> PyFloat 1000]
   \<and> (stale_cache(''a/b/'' \<mapsto> PyInt 200, ''a/'' \<mapsto> PyInt 300, ''time'' \<mapsto> PyFloat 1000)) ''old/''
      = stale_cache ''old/''"
  using refresh_cache_overrides [OF spec_refresh [of 1000 stale_cache]
      spec_refresh [of 1000 Map.empty]]
  by (simp add: spec_refresh)

section \<open>Properties of the names in a listing\<close>

lemma replace_nonempty_length:
  "length (replace_nonempty s old []) \<le> length s"
proof (induction s old "[] :: string" rule: replace_nonempty.induct)
  case (1 old)
  show ?case by simp
next
  case (2 c cs old)
  show ?case
  proof (cases "prefix old (c # cs)")
    case True
    with 2 have "length (replace_nonempty (drop (length old - 1) cs) old []) \<le> length cs"
      by (simp add: le_diff_conv trans_le_add1)
    with True show ?thesis by simp
  next
    case False
    with 2 show ?thesis by simp
  qed
qed

lemma replace_nonempty_removes:
  "old \<noteq> [] \<Longrightarrow> sublist old s \<Longrightarrow> length (replace_nonempty s old []) + length old \<le> length s"
proof (induction s old "[] :: string" rule: replace_nonempty.induct)
  case (1 old)
  then show ?case by simp
next
  case (2 c cs old)
  show ?case
  proof (cases "prefix old (c # cs)")
    case True
    then have len: "length old \<le> Suc (length cs)"
      using prefix_length_le by fastforce
    have "length (replace_nonempty (drop (length old - 1) cs) old []) \<le> length cs - (length old - 1)"
      using replace_nonempty_length [of "drop (length old - 1) cs" old] by simp
    with True len "2.prems"(1) show ?thesis
      by (cases old) auto
  next
    case False
    with "2.prems"(2) have "sublist old cs"
      by (simp add: sublist_Cons_right)
    with False 2 show ?thesis by simp
  qed
qed

lemma str_replace_leading:
  "pfx \<noteq> [] \<Longrightarrow> str_replace (pfx @ rest) pfx [] = replace_nonempty rest pfx []"
  by (cases pfx) (simp_all add: str_replace_def)

lemma str_replace_shorter:
  assumes "pfx \<noteq> []" "sublist pfx rest"
  shows "length (str_replace (pfx @ rest) pfx []) < length rest"
proof -
  have "length (replace_nonempty rest pfx []) + length pfx \<le> length rest"
    using assms by (rule replace_nonempty_removes)
  moreover have "Suc 0 \<le> length pfx" using assms(1) by (cases pfx) simp_all
  ultimately have "length (replace_nonempty rest pfx []) < length rest" by linarith
  then show ?thesis by (simp add: str_replace_leading [OF assms(1)])
qed

lemma str_replace_empty_prefix: "str_replace s [] [] = s"
  by (induction s) (simp_all add: str_replace_def)

lemma map_exn_Inr:
  "map_exn f xs = Inr ys \<Longrightarrow> list_all2 (\<lambda>x y. f x = Inr y) xs ys"
  by (induction xs arbitrary: ys) (auto split: sum.splits)

lemma list_all2_map_eq:
  "list_all2 P xs ys \<Longrightarrow> (\<And>x y. P x y \<Longrightarrow> g y = h x) \<Longrightarrow> map g ys = map h xs"
  by (induction rule: list_all2_induct) simp_all

lemma build_listing_names:
  assumes "build_listing self pfx objs = Inr r"
  shows "map e_key (r_files r) = map (\<lambda>file. str_replace (Key file) pfx []) (Contents objs)"
    and "map f_name (r_folders r) = map (\<lambda>folder. butlast (str_replace folder pfx [])) (CommonPrefixes objs)"
proof -
  from assms obtain fs es where
    fs: "map_exn (folder_entry_of self pfx) (CommonPrefixes objs) = Inr fs" and
    es: "map_exn (file_entry_of pfx) (Contents objs) = Inr es" and
    r: "r_folders r = fs" "r_files r = es"
    by (auto simp: build_listing_def split: sum.splits)
  have "map e_key es = map (\<lambda>file. str_replace (Key file) pfx []) (Contents objs)"
    by (rule list_all2_map_eq [OF map_exn_Inr [OF es]])
       (auto simp: file_entry_of_def split: sum.splits)
  then show "map e_key (r_files r) = map (\<lambda>file. str_replace (Key file) pfx []) (Contents objs)"
    by (simp add: r)
  have "map f_name fs = map (\<lambda>folder. butlast (str_replace folder pfx [])) (CommonPrefixes objs)"
    by (rule list_all2_map_eq [OF map_exn_Inr [OF fs]])
       (auto simp: folder_entry_of_def Let_def split: sum.splits)
  then show "map f_name (r_folders r) = map (\<lambda>folder. butlast (str_replace folder pfx [])) (CommonPrefixes objs)"
    by (simp add: r)
qed

text \<open>
  Claim C10, amended: in every listing the \<open>key\<close> of each returned file is the full key
  with every occurrence of the request prefix removed (occurrences taken from the left,
  not overlapping), and the \<open>name\<close> of each returned folder is the common prefix so
  treated, without its last character; for a non-empty request prefix and any key in
  which the prefix occurs again within the part that follows the leading prefix, the
  reported key is shorter than that part, hence differs from it.
\<close>

theorem listing_names_by_replace:
  assumes "fst (get_bucket_objects self pfx (Inr objs)) = Inr (Some r, None)"
  shows "map e_key (r_files r) = map (\<lambda>file. str_replace (Key file) pfx '''') (Contents objs)
     \<and> map f_name (r_folders r)
         = map (\<lambda>folder. butlast (str_replace folder pfx '''')) (CommonPrefixes objs)
     \<and> (\<forall>rest. pfx \<noteq> [] \<and> sublist pfx rest \<longrightarrow>
           str_replace (pfx @ rest) pfx '''' \<noteq> rest
           \<and> length (str_replace (pfx @ rest) pfx '''') < length rest)"
proof -
  from assms have "build_listing self pfx objs = Inr r"
    by (auto simp: get_bucket_objects_def split: sum.splits)
  from build_listing_names [OF this] str_replace_shorter [of pfx]
  show ?thesis by fastforce
qed

lemma report_list:
  "list_objects_v2 report_bucket ''a''
     = \<lparr>CommonPrefixes = [],
        Contents = [\<lparr>Key = ''a-data.txt'', Size = 1, LastModified = ''2024-01-01''\<rparr>],
        Prefix = ''a'', Name = ''demo''\<rparr>"
  by (simp add: list_objects_v2_def report_bucket_def)

lemma hrs_one: "human_readable_size (PyInt 1) = Inr ''1.00 B''"
  by code_simp

lemma report_listing:
  "fst (get_bucket_objects report_bucket ''a'' (Inr (list_objects_v2 report_bucket ''a'')))
     = Inr (Some \<lparr> r_folders = [],
                     r_files = [\<lparr>e_key = ''-dt.txt'', e_last_modified = ''2024-01-01'',
                                 e_size = ''1.00 B'', e_path = ''a-data.txt''\<rparr>],
                     r_prefix = [], r_bucket = ''demo'' \<rparr>, None)"
  by (simp add: get_bucket_objects_def build_listing_def report_list file_entry_of_def hrs_one
      str_replace_def)

lemma sublist_a_data: "sublist ''a'' ''-data.txt''"
proof -
  have "''-data.txt'' = ''-d'' @ ''a'' @ ''ta.txt''" by simp
  then show ?thesis unfolding sublist_def by blast
qed

theorem listing_names_by_replace_witness:
  "fst (get_bucket_objects report_bucket ''a'' (Inr (list_objects_v2 report_bucket ''a'')))
     = Inr (Some \<lparr> r_folders = [],
                     r_files = [\<lparr>e_key = ''-dt.txt'', e_last_modified = ''2024-01-01'',
                                 e_size = ''1.00 B'', e_path = ''a-data.txt''\<rparr>],
                     r_prefix = [], r_bucket = ''demo'' \<rparr>, None)
   \<and> [''-dt.txt''] = map (\<lambda>file. str_replace (Key file) ''a'' '''')
                         (Contents (list_objects_v2 report_bucket ''a''))
   \<and> ''a'' \<noteq> [] \<and> sublist ''a'' ''-data.txt''
   \<and> str_replace (''a'' @ ''-data.txt'') ''a'' '''' \<noteq> ''-data.txt''
   \<and> length (str_replace (''a'' @ ''-data.txt'') ''a'' '''') < length ''-data.txt''"
proof -
  note t = listing_names_by_replace [OF report_listing]
  from t have k: "[''-dt.txt''] = map (\<lambda>file. str_replace (Key file) ''a'' '''')
                         (Contents (list_objects_v2 report_bucket ''a''))"
    by simp
  from t have "\<forall>rest. ''a'' \<noteq> [] \<and> sublist ''a'' rest \<longrightarrow>
           str_replace (''a'' @ rest) ''a'' '''' \<noteq> rest
           \<and> length (str_replace (''a'' @ rest) ''a'' '''') < length rest"
    by blast
  then have "''a'' \<noteq> [] \<and> sublist ''a'' ''-data.txt'' \<longrightarrow>
           str_replace (''a'' @ ''-data.txt'') ''a'' '''' \<noteq> ''-data.txt''
           \<and> length (str_replace (''a'' @ ''-data.txt'') ''a'' '''') < length ''-data.txt''"
    by (rule spec)
  with sublist_a_data
  have d: "str_replace (''a'' @ ''-data.txt'') ''a'' '''' \<noteq> ''-data.txt''
           \<and> length (str_replace (''a'' @ ''-data.txt'') ''a'' '''') < length ''-data.txt''"
    by simp
  have ne: "''a'' \<noteq> []" by simp
  from report_listing k ne sublist_a_data d show ?thesis by blast
qed

lemma overlap_list:
  "list_objects_v2 overlap_bucket ''aa''
     = \<lparr>CommonPrefixes = [],
        Contents = [\<lparr>Key = ''aaa'', Size = 1, LastModified = ''2024-01-01''\<rparr>],
        Prefix = ''aa'', Name = ''demo''\<rparr>"
  by (simp add: list_objects_v2_def overlap_bucket_def)

text \<open>
  Claim C10, as stated (for any object key in which the prefix string reoccurs after the
  start, the reported key differs from the suffix following the leading prefix), fails
  when the second occurrence overlaps the leading one, and for the empty prefix, of
  which nothing is removed: for the prefix \<open>aa\<close> the key \<open>aaa\<close> is reported as \<open>a\<close>, and
  for the empty prefix \<open>c.txt\<close> is reported as \<open>c.txt\<close>.
\<close>

theorem reported_key_equals_suffix:
  "take (length ''aa'') (drop 1 ''aaa'') = ''aa''
   \<and> (case build_listing overlap_bucket ''aa'' (list_objects_v2 overlap_bucket ''aa'') of
        Inl e \<Rightarrow> False
      | Inr r \<Rightarrow> map e_key (r_files r) = [drop (length ''aa'') ''aaa''])
   \<and> (case build_listing spec_bucket '''' (list_objects_v2 spec_bucket '''') of
        Inl e \<Rightarrow> False
      | Inr r \<Rightarrow> map e_key (r_files r) = [drop (length '''') ''c.txt''])"
proof -
  have h: "human_readable_size (PyInt 300) = Inr ''300.00 B''"
          "human_readable_size (PyInt 50) = Inr ''50.00 B''"
    by code_simp+
  have c: "cache spec_bucket ''a/'' = Some (PyInt 300)" by (simp add: spec_bucket_def)
  show ?thesis
    by (simp add: build_listing_def overlap_list spec_list_root file_entry_of_def
        folder_entry_of_def dict_get_def c h hrs_one str_replace_def)
qed

section \<open>What \<open>calculate_folder_size\<close> computes and writes\<close>

lemma fold_add_sizes:
  "fold (\<lambda>file total_size. total_size + Size file) files t = t + sum_list (map Size files)"
  by (induction files arbitrary: t) simp_all

text \<open>
  The recursion equations of the size computed and of the entries written: the size of
  a prefix is the sum of the sizes computed for the prefixes the recursion goes to, plus
  the sizes of the objects listed; the entries are those written below, then the entry
  of the prefix itself.
\<close>

lemma folder_total_writes_unfold:
  "folder_total self pfx
     = sum_list (map (\<lambda>f. folder_total self (child_prefix pfx f))
                     (CommonPrefixes (list_objects_v2 self pfx)))
       + sum_list (map Size (Contents (list_objects_v2 self pfx)))"
  "folder_writes self pfx
     = (fold (\<lambda>f m. m ++ folder_writes self (child_prefix pfx f))
             (CommonPrefixes (list_objects_v2 self pfx)) Map.empty)
       (pfx \<mapsto> PyInt (folder_total self pfx))"
proof -
  let ?fs = "CommonPrefixes (list_objects_v2 self pfx)"
  let ?g = "\<lambda>f c. calculate_folder_size self (child_prefix pfx f) c"
  let ?sz = "\<lambda>f. folder_total self (child_prefix pfx f)"
  let ?w = "\<lambda>f. folder_writes self (child_prefix pfx f)"
  have fr: "fold (\<lambda>f (t, c). case ?g f c of (s, c') \<Rightarrow> (t + s, c')) ?fs (t, c)
           = (t + sum_list (map ?sz ?fs), c ++ fold (\<lambda>f m. m ++ ?w f) ?fs Map.empty)" for t c
    by (rule folders_fold_frame) (rule calculate_folder_size_frame)
  show t: "folder_total self pfx
     = sum_list (map ?sz ?fs) + sum_list (map Size (Contents (list_objects_v2 self pfx)))"
    unfolding folder_total_def [of self pfx]
    by (subst calculate_folder_size_unfold) (simp add: Let_def fr fold_add_sizes)
  show "folder_writes self pfx
     = (fold (\<lambda>f m. m ++ ?w f) ?fs Map.empty)(pfx \<mapsto> PyInt (folder_total self pfx))"
    unfolding folder_writes_def [of self pfx] t
    by (subst calculate_folder_size_unfold) (simp add: Let_def fr fold_add_sizes)
qed

lemma fold_map_add_Some:
  "fold (\<lambda>f m. m ++ w f) fs m0 q = Some v \<Longrightarrow> m0 q = Some v \<or> (\<exists>f \<in> set fs. w f q = Some v)"
proof (induction fs arbitrary: m0)
  case Nil
  then show ?case by simp
next
  case (Cons f fs)
  from Cons.IH [of "m0 ++ w f"] Cons.prems
  have "(m0 ++ w f) q = Some v \<or> (\<exists>f \<in> set fs. w f q = Some v)" by simp
  then show ?case by (auto simp: map_add_Some_iff)
qed

lemma fold_map_add_dom:
  "dom (fold (\<lambda>f m. m ++ w f) fs m0) = dom m0 \<union> (\<Union>f \<in> set fs. dom (w f))"
  by (induction fs arbitrary: m0) auto

text \<open>
  What holds of the dictionary after \<open>calculate_folder_size\<close>: the prefix has its entry,
  the entries written by the calls below are kept, and every entry written maps its key
  to the size the function computes for that key.
\<close>

lemma folder_writes_root:
  "folder_writes self pfx pfx = Some (PyInt (folder_total self pfx))"
  by (subst folder_total_writes_unfold(2)) simp

lemma folder_writes_below:
  assumes "f \<in> set (CommonPrefixes (list_objects_v2 self pfx))"
  shows "dom (folder_writes self (child_prefix pfx f)) \<subseteq> dom (folder_writes self pfx)"
  using assms by (subst (2) folder_total_writes_unfold(2)) (auto simp: fold_map_add_dom)

lemma folder_writes_values:
  "folder_writes self pfx q = Some v \<Longrightarrow> v = PyInt (folder_total self q)"
proof (induction self pfx "Map.empty :: cache" arbitrary: q v rule: calculate_folder_size.induct)
  case (1 self pfx)
  let ?fs = "CommonPrefixes (list_objects_v2 self pfx)"
  let ?w = "\<lambda>f. folder_writes self (child_prefix pfx f)"
  show ?case
  proof (cases "q = pfx")
    case True
    with "1.prems" folder_writes_root [of self pfx] show ?thesis by simp
  next
    case False
    with "1.prems" have "fold (\<lambda>f m. m ++ ?w f) ?fs Map.empty q = Some v"
      by (subst (asm) folder_total_writes_unfold(2)) simp
    from fold_map_add_Some [OF this] obtain f where
      f: "f \<in> set ?fs" and w: "?w f q = Some v"
      by auto
    from "1.hyps" [OF refl refl refl f refl] w show ?thesis
      by (simp add: child_prefix_def)
  qed
qed

subsection \<open>When \<open>replace\<close> strips the leading prefix only\<close>

lemma replace_nonempty_absent:
  "old \<noteq> [] \<Longrightarrow> \<not> sublist old s \<Longrightarrow> replace_nonempty s old new = s"
proof (induction s old new rule: replace_nonempty.induct)
  case (1 old new)
  show ?case by simp
next
  case (2 c cs old new)
  from "2.prems"(2) have np: "\<not> prefix old (c # cs)" and ns: "\<not> sublist old cs"
    by (auto simp: sublist_Cons_right)
  from "2.IH"(2) [OF np "2.prems"(1) ns] np show ?case by simp
qed

lemma child_prefix_exact:
  assumes "\<not> sublist pfx (seg @ ''/'')"
  shows "child_prefix pfx (pfx @ seg @ ''/'') = pfx @ seg @ ''/''"
proof -
  from assms have ne: "pfx \<noteq> []" by auto
  have "str_replace (pfx @ seg @ ''/'') pfx [] = replace_nonempty (seg @ ''/'') pfx []"
    by (rule str_replace_leading [OF ne])
  also have "\<dots> = seg @ ''/''"
    by (rule replace_nonempty_absent [OF ne assms])
  finally show ?thesis by (simp add: child_prefix_def butlast_append)
qed

lemma deep_prefix_absent:
  assumes "CHR ''/'' \<in> set t" "CHR ''/'' \<notin> set seg"
  shows "\<not> sublist (t @ ''/'') (seg @ ''/'')"
proof
  assume "sublist (t @ ''/'') (seg @ ''/'')"
  then obtain a b where e: "seg @ ''/'' = a @ (t @ ''/'') @ b"
    unfolding sublist_def by blast
  let ?n = "\<lambda>s. length (filter (\<lambda>c. c = CHR ''/'') s)"
  from assms(2) have "filter (\<lambda>c. c = CHR ''/'') seg = []"
    by (auto simp: filter_empty_conv)
  then have one: "?n (seg @ ''/'') = 1" by simp
  from assms(1) have "filter (\<lambda>c. c = CHR ''/'') t \<noteq> []"
    by (auto simp: filter_empty_conv)
  then have "1 \<le> ?n t" by (cases "filter (\<lambda>c. c = CHR ''/'') t") simp_all
  then have "2 \<le> ?n (a @ (t @ ''/'') @ b)" by simp
  with one e show False by simp
qed

subsection \<open>The listing splits the objects under a prefix\<close>

lemma common_prefix_shape:
  assumes "cp \<in> set (CommonPrefixes (list_objects_v2 self pfx))"
  shows "\<exists>seg. cp = pfx @ seg @ ''/'' \<and> CHR ''/'' \<notin> set seg"
proof -
  from assms have
    "cp \<in> (\<lambda>obj. pfx @ takeWhile (\<lambda>c. c \<noteq> CHR ''/'') (drop (length pfx) (Key obj)) @ ''/'')
            ` set (s3 self)"
    by (auto simp: list_objects_v2_def Let_def)
  then show ?thesis
  proof (rule imageE)
    fix obj
    assume cp: "cp = pfx @ takeWhile (\<lambda>c. c \<noteq> CHR ''/'') (drop (length pfx) (Key obj)) @ ''/''"
    have "CHR ''/'' \<notin> set (takeWhile (\<lambda>c. c \<noteq> CHR ''/'') (drop (length pfx) (Key obj)))"
      by (auto dest: set_takeWhileD)
    with cp show ?thesis by blast
  qed
qed

lemma under_common_prefix:
  assumes "CHR ''/'' \<notin> set seg"
  shows "prefix (pfx @ seg @ ''/'') k \<longleftrightarrow>
           prefix pfx k \<and> CHR ''/'' \<in> set (drop (length pfx) k)
           \<and> pfx @ takeWhile (\<lambda>c. c \<noteq> CHR ''/'') (drop (length pfx) k) @ ''/'' = pfx @ seg @ ''/''"
proof
  assume "prefix (pfx @ seg @ ''/'') k"
  then obtain z where k: "k = pfx @ seg @ ''/'' @ z" by (auto simp: prefix_def)
  have "takeWhile (\<lambda>c. c \<noteq> CHR ''/'') (seg @ CHR ''/'' # z) = seg"
    using assms by (subst takeWhile_append2) auto
  then show "prefix pfx k \<and> CHR ''/'' \<in> set (drop (length pfx) k)
           \<and> pfx @ takeWhile (\<lambda>c. c \<noteq> CHR ''/'') (drop (length pfx) k) @ ''/'' = pfx @ seg @ ''/''"
    by (simp add: k)
next
  assume a: "prefix pfx k \<and> CHR ''/'' \<in> set (drop (length pfx) k)
           \<and> pfx @ takeWhile (\<lambda>c. c \<noteq> CHR ''/'') (drop (length pfx) k) @ ''/'' = pfx @ seg @ ''/''"
  let ?r = "drop (length pfx) k"
  from a have k: "k = pfx @ ?r" by (auto simp: prefix_def)
  from a have tw: "takeWhile (\<lambda>c. c \<noteq> CHR ''/'') ?r = seg" by simp
  from a have "dropWhile (\<lambda>c. c \<noteq> CHR ''/'') ?r \<noteq> []" by (simp add: dropWhile_eq_Nil_conv)
  then obtain z where dw: "dropWhile (\<lambda>c. c \<noteq> CHR ''/'') ?r = CHR ''/'' # z"
    using hd_dropWhile [of "\<lambda>c. c \<noteq> CHR ''/''" ?r]
    by (cases "dropWhile (\<lambda>c. c \<noteq> CHR ''/'') ?r") auto
  have "?r = seg @ CHR ''/'' # z"
    using takeWhile_dropWhile_id [of "\<lambda>c. c \<noteq> CHR ''/''" ?r] by (simp add: tw dw)
  with k have "k = (pfx @ seg @ ''/'') @ z" by simp
  then show "prefix (pfx @ seg @ ''/'') k" by (metis prefixI)
qed

lemma sum_list_filter_split:
  fixes g :: "'a \<Rightarrow> int"
  shows "sum_list (map g xs)
           = sum_list (map g (filter P xs)) + sum_list (map g (filter (\<lambda>x. \<not> P x) xs))"
  by (induction xs) simp_all

lemma sum_list_by_key:
  fixes g :: "'a \<Rightarrow> int"
  shows "sum_list (map g xs)
           = sum_list (map (\<lambda>k. sum_list (map g (filter (\<lambda>x. key x = k) xs)))
                          (remdups (map key xs)))"
proof -
  let ?ks = "remdups (map key xs)"
  have d: "distinct ?ks" by simp
  have "sum_list (map g ys) = (\<Sum>k \<in> set ?ks. sum_list (map g (filter (\<lambda>x. key x = k) ys)))"
    if "set ys \<subseteq> set xs" for ys
    using that
  proof (induction ys)
    case Nil
    show ?case by simp
  next
    case (Cons y ys)
    then have y: "key y \<in> set ?ks" by simp
    have "(\<Sum>k \<in> set ?ks. sum_list (map g (filter (\<lambda>x. key x = k) (y # ys))))
            = (\<Sum>k \<in> set ?ks. (if key y = k then g y else 0)
                                 + sum_list (map g (filter (\<lambda>x. key x = k) ys)))"
      by (intro sum.cong) simp_all
    also have "\<dots> = (\<Sum>k \<in> set ?ks. if key y = k then g y else 0)
                       + (\<Sum>k \<in> set ?ks. sum_list (map g (filter (\<lambda>x. key x = k) ys)))"
      by (simp add: sum.distrib)
    also have "(\<Sum>k \<in> set ?ks. if key y = k then g y else 0) = g y"
      using y by (simp add: sum.delta')
    finally show ?case using Cons by simp
  qed
  from this [of xs] show ?thesis
    by (simp add: sum_list_distinct_conv_sum_set [OF d])
qed

text \<open>
  The total below a prefix is the sum of the totals below the common prefixes of its
  listing and of the sizes of the objects of its listing.
\<close>

lemma prefix_total_split:
  "prefix_total self pfx
     = sum_list (map (prefix_total self) (CommonPrefixes (list_objects_v2 self pfx)))
       + sum_list (map Size (Contents (list_objects_v2 self pfx)))"
proof -
  let ?sl = "\<lambda>obj. CHR ''/'' \<in> set (drop (length pfx) (Key obj))"
  let ?cp = "\<lambda>obj. pfx @ takeWhile (\<lambda>c. c \<noteq> CHR ''/'') (drop (length pfx) (Key obj)) @ ''/''"
  let ?m = "filter (\<lambda>obj. prefix pfx (Key obj)) (s3 self)"
  let ?rolled = "filter ?sl ?m"
  have cps: "CommonPrefixes (list_objects_v2 self pfx) = remdups (map ?cp ?rolled)"
    and cts: "Contents (list_objects_v2 self pfx) = filter (\<lambda>obj. \<not> ?sl obj) ?m"
    by (simp_all add: list_objects_v2_def Let_def)
  have below: "prefix_total self k = sum_list (map Size (filter (\<lambda>obj. ?cp obj = k) ?rolled))"
    if "k \<in> set (remdups (map ?cp ?rolled))" for k
  proof -
    from that have "k \<in> set (CommonPrefixes (list_objects_v2 self pfx))" by (simp add: cps)
    from common_prefix_shape [OF this] obtain seg where
      k: "k = pfx @ seg @ ''/''" and seg: "CHR ''/'' \<notin> set seg" by blast
    have "filter (\<lambda>obj. prefix k (Key obj)) (s3 self) = filter (\<lambda>obj. ?cp obj = k) ?rolled"
      unfolding k by (simp add: under_common_prefix [OF seg] conj_commute conj_left_commute
          cong: conj_cong)
    then show ?thesis by (simp add: prefix_total_def)
  qed
  have "prefix_total self pfx = sum_list (map Size ?m)"
    by (simp add: prefix_total_def)
  also have "\<dots> = sum_list (map Size ?rolled) + sum_list (map Size (filter (\<lambda>obj. \<not> ?sl obj) ?m))"
    by (rule sum_list_filter_split)
  also have "sum_list (map Size ?rolled)
               = sum_list (map (\<lambda>k. sum_list (map Size (filter (\<lambda>obj. ?cp obj = k) ?rolled)))
                              (remdups (map ?cp ?rolled)))"
    by (rule sum_list_by_key)
  also have "\<dots> = sum_list (map (prefix_total self) (remdups (map ?cp ?rolled)))"
    by (intro arg_cong [where f = sum_list] map_cong refl below [symmetric])
  finally show ?thesis by (simp only: cps cts)
qed

subsection \<open>Where \<open>calculate_folder_size\<close> is right\<close>

text \<open>
  Below a prefix that ends in \<open>/\<close> and has another \<open>/\<close> before, no common prefix can
  contain the prefix a second time, the recursion goes to the common prefixes themselves,
  and the size computed is the total below the prefix.
\<close>

lemma child_prefix_deep:
  assumes "CHR ''/'' \<in> set t" "f \<in> set (CommonPrefixes (list_objects_v2 self (t @ ''/'')))"
  shows "child_prefix (t @ ''/'') f = f"
proof -
  from common_prefix_shape [OF assms(2)] obtain seg where
    f: "f = (t @ ''/'') @ seg @ ''/''" and seg: "CHR ''/'' \<notin> set seg" by blast
  have "\<not> sublist (t @ ''/'') (seg @ ''/'')"
    by (rule deep_prefix_absent [OF assms(1) seg])
  then show ?thesis unfolding f by (rule child_prefix_exact)
qed

lemma common_prefix_deep:
  assumes "f \<in> set (CommonPrefixes (list_objects_v2 self (t @ ''/'')))"
  shows "\<exists>u. f = u @ ''/'' \<and> CHR ''/'' \<in> set u"
proof -
  from common_prefix_shape [OF assms] obtain seg where
    "f = (t @ ''/'') @ seg @ ''/''" by blast
  then have "f = (t @ ''/'' @ seg) @ ''/''" "CHR ''/'' \<in> set (t @ ''/'' @ seg)" by simp_all
  then show ?thesis by blast
qed

lemma folder_total_deep_aux:
  "pfx = t @ ''/'' \<Longrightarrow> CHR ''/'' \<in> set t \<Longrightarrow> folder_total self pfx = prefix_total self pfx"
proof (induction self pfx "Map.empty :: cache" arbitrary: t rule: calculate_folder_size.induct)
  case (1 self pfx)
  let ?fs = "CommonPrefixes (list_objects_v2 self pfx)"
  have each: "folder_total self (child_prefix pfx f) = prefix_total self f" if f: "f \<in> set ?fs" for f
  proof -
    from f have f': "f \<in> set (CommonPrefixes (list_objects_v2 self (t @ ''/'')))"
      by (simp add: "1.prems"(1))
    have ch: "child_prefix pfx f = f"
      unfolding "1.prems"(1) by (rule child_prefix_deep [OF "1.prems"(2) f'])
    from common_prefix_deep [OF f'] obtain u where u: "f = u @ ''/''" "CHR ''/'' \<in> set u"
      by blast
    have "pfx @ butlast (str_replace f pfx []) @ ''/'' = u @ ''/''"
      using ch u(1) by (simp add: child_prefix_def)
    from "1.hyps" [OF refl refl refl f refl this u(2)]
    have "folder_total self (child_prefix pfx f) = prefix_total self (child_prefix pfx f)"
      by (simp add: child_prefix_def)
    then show ?thesis by (simp add: ch)
  qed
  have "folder_total self pfx
          = sum_list (map (\<lambda>f. folder_total self (child_prefix pfx f)) ?fs)
            + sum_list (map Size (Contents (list_objects_v2 self pfx)))"
    by (rule folder_total_writes_unfold(1))
  also have "map (\<lambda>f. folder_total self (child_prefix pfx f)) ?fs = map (prefix_total self) ?fs"
    by (intro map_cong refl each)
  also have "sum_list (map (prefix_total self) ?fs)
               + sum_list (map Size (Contents (list_objects_v2 self pfx)))
             = prefix_total self pfx"
    by (rule prefix_total_split [symmetric])
  finally show ?case .
qed

lemma folder_total_deep:
  "CHR ''/'' \<in> set t \<Longrightarrow> folder_total self (t @ ''/'') = prefix_total self (t @ ''/'')"
  by (rule folder_total_deep_aux [OF refl])

text \<open>
  For a prefix that ends in \<open>/\<close> it is enough that the recursion goes to each common
  prefix of its own listing.
\<close>

lemma folder_total_when_addressed:
  assumes "\<forall>f \<in> set (CommonPrefixes (list_objects_v2 self (t @ ''/''))). child_prefix (t @ ''/'') f = f"
  shows "fst (calculate_folder_size self (t @ ''/'') cmap) = prefix_total self (t @ ''/'')"
proof -
  let ?pfx = "t @ ''/''"
  let ?fs = "CommonPrefixes (list_objects_v2 self ?pfx)"
  have each: "folder_total self (child_prefix ?pfx f) = prefix_total self f" if f: "f \<in> set ?fs" for f
  proof -
    from common_prefix_deep [OF f] obtain u where u: "f = u @ ''/''" "CHR ''/'' \<in> set u"
      by blast
    from assms f have "child_prefix ?pfx f = f" by blast
    then show ?thesis using folder_total_deep [OF u(2)] u(1) by simp
  qed
  have "folder_total self ?pfx
          = sum_list (map (\<lambda>f. folder_total self (child_prefix ?pfx f)) ?fs)
            + sum_list (map Size (Contents (list_objects_v2 self ?pfx)))"
    by (rule folder_total_writes_unfold(1))
  also have "map (\<lambda>f. folder_total self (child_prefix ?pfx f)) ?fs = map (prefix_total self) ?fs"
    by (intro map_cong refl each)
  also have "sum_list (map (prefix_total self) ?fs)
               + sum_list (map Size (Contents (list_objects_v2 self ?pfx)))
             = prefix_total self ?pfx"
    by (rule prefix_total_split [symmetric])
  finally show ?thesis by (simp add: calculate_folder_size_frame)
qed

lemma listed_common_prefix:
  assumes "obj \<in> set (s3 self)" "prefix (pfx @ seg @ ''/'') (Key obj)" "CHR ''/'' \<notin> set seg"
  shows "pfx @ seg @ ''/'' \<in> set (CommonPrefixes (list_objects_v2 self pfx))"
proof -
  let ?cp = "\<lambda>obj. pfx @ takeWhile (\<lambda>c. c \<noteq> CHR ''/'') (drop (length pfx) (Key obj)) @ ''/''"
  from assms(2) under_common_prefix [OF assms(3), of pfx "Key obj"]
  have p: "prefix pfx (Key obj)" and s: "CHR ''/'' \<in> set (drop (length pfx) (Key obj))"
    and c: "?cp obj = pfx @ seg @ ''/''"
    by blast+
  from assms(1) p s have "?cp obj \<in> set (CommonPrefixes (list_objects_v2 self pfx))"
    by (simp add: list_objects_v2_def Let_def)
  then show ?thesis by (simp only: c)
qed

lemma first_segment:
  assumes "r \<noteq> []" "last r = CHR ''/''"
  shows "\<exists>seg r'. r = seg @ ''/'' @ r' \<and> CHR ''/'' \<notin> set seg"
proof -
  let ?P = "\<lambda>c. c \<noteq> CHR ''/''"
  from assms have "CHR ''/'' \<in> set r" using last_in_set by metis
  then have "dropWhile ?P r \<noteq> []" by (simp add: dropWhile_eq_Nil_conv)
  then obtain z where dw: "dropWhile ?P r = CHR ''/'' # z"
    using hd_dropWhile [of ?P r] by (cases "dropWhile ?P r") auto
  have "r = takeWhile ?P r @ ''/'' @ z"
    using takeWhile_dropWhile_id [of ?P r] by (simp add: dw)
  moreover have "CHR ''/'' \<notin> set (takeWhile ?P r)" by (auto dest: set_takeWhileD)
  ultimately show ?thesis by blast
qed

lemma folder_writes_covers:
  "pfx = t @ ''/'' \<Longrightarrow> CHR ''/'' \<in> set t \<Longrightarrow> prefix pfx q \<Longrightarrow> q = u @ ''/'' \<Longrightarrow>
   obj \<in> set (s3 self) \<Longrightarrow> prefix q (Key obj) \<Longrightarrow> q \<in> dom (folder_writes self pfx)"
proof (induction self pfx "Map.empty :: cache" arbitrary: t rule: calculate_folder_size.induct)
  case (1 self pfx)
  show ?case
  proof (cases "q = pfx")
    case True
    then show ?thesis using folder_writes_root [of self pfx] by auto
  next
    case False
    with "1.prems"(3) obtain r where q: "q = pfx @ r" and r: "r \<noteq> []"
      by (auto simp: prefix_def)
    from q r "1.prems"(4) have "last r = CHR ''/''"
      by (metis last_appendR last_snoc)
    from first_segment [OF r this] obtain seg r' where
      r': "r = seg @ ''/'' @ r'" and seg: "CHR ''/'' \<notin> set seg" by blast
    let ?f = "pfx @ seg @ ''/''"
    have qf: "q = ?f @ r'" by (simp add: q r')
    from "1.prems"(6) have "prefix ?f (Key obj)"
      unfolding qf using append_prefixD by blast
    from listed_common_prefix [OF "1.prems"(5) this seg]
    have f: "?f \<in> set (CommonPrefixes (list_objects_v2 self pfx))" .
    then have f': "?f \<in> set (CommonPrefixes (list_objects_v2 self (t @ ''/'')))"
      by (simp add: "1.prems"(1))
    have ch: "child_prefix pfx ?f = ?f"
      unfolding "1.prems"(1) using child_prefix_deep [OF "1.prems"(2) f']
      by (simp add: "1.prems"(1))
    have e: "pfx @ butlast (str_replace ?f pfx []) @ ''/'' = (pfx @ seg) @ ''/''"
      using ch by (simp add: child_prefix_def)
    have d: "CHR ''/'' \<in> set (pfx @ seg)" by (simp add: "1.prems"(1))
    have pq: "prefix (pfx @ butlast (str_replace ?f pfx []) @ ''/'') q"
      unfolding e by (simp add: qf)
    from "1.hyps" [OF refl refl refl f refl e d pq "1.prems"(4) "1.prems"(5) "1.prems"(6)]
    have "q \<in> dom (folder_writes self (child_prefix pfx ?f))"
      by (simp add: child_prefix_def)
    with folder_writes_below [OF f] show ?thesis by blast
  qed
qed

text \<open>
  Below such a prefix every folder that holds an object gets its entry, with the total
  below the folder.
\<close>

lemma calculate_folder_size_populates:
  assumes "CHR ''/'' \<in> set t" "prefix (t @ ''/'') q" "q = u @ ''/''"
    and "obj \<in> set (s3 self)" "prefix q (Key obj)"
  shows "snd (calculate_folder_size self (t @ ''/'') cmap) q = Some (PyInt (prefix_total self q))"
proof -
  from folder_writes_covers [OF refl assms] obtain v where
    v: "folder_writes self (t @ ''/'') q = Some v" by blast
  then have "v = PyInt (folder_total self q)" by (rule folder_writes_values)
  moreover have "CHR ''/'' \<in> set u"
  proof -
    from assms(2) obtain r where "u @ ''/'' = t @ ''/'' @ r"
      unfolding assms(3) by (auto simp: prefix_def)
    then have "set (u @ ''/'') = set (t @ ''/'' @ r)" by simp
    then show ?thesis
    proof (cases r rule: rev_cases)
      case Nil
      with \<open>u @ ''/'' = t @ ''/'' @ r\<close> have "u = t" by simp
      with assms(1) show ?thesis by simp
    next
      case (snoc r0 c)
      with \<open>u @ ''/'' = t @ ''/'' @ r\<close> have "u = t @ ''/'' @ r0" by simp
      then show ?thesis by simp
    qed
  qed
  then have "folder_total self q = prefix_total self q"
    unfolding assms(3) by (rule folder_total_deep)
  ultimately show ?thesis
    using v by (simp add: calculate_folder_size_frame map_add_Some_iff)
qed

end
